theory Spec2Isabelle
  imports Main "HOL-Library.Sublist"
begin

section \<open>The WebSocket service (frontend/src/services/websocket.js)\<close>

subsection \<open>Values, completions and the state of the service\<close>

text \<open>
  A decoded frame is a JSON tree. Callbacks are opaque functions that the service only
  stores, compares by reference (\<open>indexOf\<close>) and calls: a callback is modelled by its
  identity, a natural number, and what it does when called is given by a \<open>behaviour\<close>.
  Objects that are shared and mutated in place (the arrays held in the \<open>listeners\<close> Map,
  the sockets) live in stores indexed by references.
\<close>

datatype json =
  JNull | JBool bool | JNum int | JStr string | JArr "json list" | JObj "(string \<times> json) list"

type_synonym callback = nat
type_synonym ref = nat

datatype readyState = CONNECTING | OPEN | CLOSING | CLOSED

datatype exn = SyntaxError | TypeError | Raised string

text \<open>
  How a call ends. No method of the service but \<open>isConnected\<close> has a \<open>return\<close>
  statement, so a call that does not throw returns \<open>undefined\<close>.
\<close>

datatype completion = ReturnUndefined | Throw exn

datatype logline = ConsoleLog string | ConsoleLogNum string nat | ConsoleError string

text \<open>
  The fields of \<open>WebSocketService\<close> (\<open>ws\<close>, \<open>listeners\<close>, \<open>reconnectAttempts\<close>,
  \<open>maxReconnectAttempts\<close>, \<open>reconnectDelay\<close>) and the part of the browser they act on:
  the array objects and sockets, the \<open>setTimeout\<close> calls made so far (their delays, in
  order) and how many of them have run, the frames handed to \<open>WebSocket.send\<close>, the
  callback invocations so far, and the console.
\<close>

record state =
  ws :: "ref option"
  listeners :: "string \<rightharpoonup> ref"
  reconnectAttempts :: nat
  maxReconnectAttempts :: nat
  reconnectDelay :: nat
  arrays :: "ref \<Rightarrow> callback list"
  next_array :: ref
  sockets :: "ref \<Rightarrow> readyState"
  next_socket :: ref
  timeouts :: "nat list"
  fired :: nat
  transmitted :: "(ref \<times> string) list"
  invoked :: "(callback \<times> json) list"
  console :: "logline list"

definition constructor :: state where
  "constructor =
     \<lparr>ws = None, listeners = Map.empty, reconnectAttempts = 0, maxReconnectAttempts = 5,
      reconnectDelay = 3000, arrays = (\<lambda>_. []), next_array = 0, sockets = (\<lambda>_. CLOSED),
      next_socket = 0, timeouts = [], fired = 0, transmitted = [], invoked = [],
      console = []\<rparr>"

subsection \<open>try/catch and sequencing\<close>

definition try_catch ::
  "(state \<Rightarrow> state \<times> completion) \<Rightarrow> (exn \<Rightarrow> state \<Rightarrow> state \<times> completion) \<Rightarrow>
   state \<Rightarrow> state \<times> completion" where
  "try_catch body handler s =
     (case body s of
        (s', ReturnUndefined) \<Rightarrow> (s', ReturnUndefined)
      | (s', Throw e) \<Rightarrow> handler e s')"

definition andThen ::
  "state \<times> completion \<Rightarrow> (state \<Rightarrow> state \<times> completion) \<Rightarrow> state \<times> completion" where
  "andThen r f = (case r of (s, ReturnUndefined) \<Rightarrow> f s | (s, Throw e) \<Rightarrow> (s, Throw e))"

definition console_log :: "string \<Rightarrow> state \<Rightarrow> state" where
  "console_log msg s = s\<lparr>console := console s @ [ConsoleLog msg]\<rparr>"

definition console_error :: "string \<Rightarrow> state \<Rightarrow> state" where
  "console_error msg s = s\<lparr>console := console s @ [ConsoleError msg]\<rparr>"

subsection \<open>subscribe and unsubscribe\<close>

text \<open>
  \<^verbatim>\<open>
  subscribe(eventType, callback) {
      if (!this.listeners.has(eventType)) { this.listeners.set(eventType, []); }
      this.listeners.get(eventType).push(callback);
  }
  unsubscribe(eventType, callback) {
      if (this.listeners.has(eventType)) {
          const callbacks = this.listeners.get(eventType);
          const index = callbacks.indexOf(callback);
          if (index > -1) { callbacks.splice(index, 1); }
      }
  }
  \<close>
  \<open>[]\<close> allocates a new array object; \<open>push\<close> and \<open>splice\<close> mutate the array that the
  Map holds, in place.
\<close>

definition push :: "ref \<Rightarrow> callback \<Rightarrow> state \<Rightarrow> state" where
  "push a callback s = s\<lparr>arrays := (arrays s)(a := arrays s a @ [callback])\<rparr>"

definition subscribe :: "string \<Rightarrow> callback \<Rightarrow> state \<Rightarrow> state" where
  "subscribe eventType callback s =
     (let s1 = (if listeners s eventType = None
                then s\<lparr>listeners := (listeners s)(eventType \<mapsto> next_array s),
                       arrays := (arrays s)(next_array s := []),
                       next_array := Suc (next_array s)\<rparr>
                else s)
      in case listeners s1 eventType of
           Some a \<Rightarrow> push a callback s1
         | None \<Rightarrow> s1)"

text \<open>\<open>indexOf\<close>: the first index holding the value, \<open>None\<close> for \<open>-1\<close>.\<close>

fun indexOf :: "'a list \<Rightarrow> 'a \<Rightarrow> nat option" where
  "indexOf [] x = None"
| "indexOf (y # ys) x = (if y = x then Some 0 else map_option Suc (indexOf ys x))"

text \<open>\<open>splice(index, 1)\<close>: removes the one element at \<open>index\<close>.\<close>

definition splice1 :: "nat \<Rightarrow> 'a list \<Rightarrow> 'a list" where
  "splice1 i xs = take i xs @ drop (Suc i) xs"

definition unsubscribe :: "string \<Rightarrow> callback \<Rightarrow> state \<Rightarrow> state" where
  "unsubscribe eventType callback s =
     (case listeners s eventType of
        None \<Rightarrow> s
      | Some a \<Rightarrow>
          (case indexOf (arrays s a) callback of
             None \<Rightarrow> s
           | Some i \<Rightarrow> s\<lparr>arrays := (arrays s)(a := splice1 i (arrays s a))\<rparr>))"

subsection \<open>Callbacks and notifyListeners\<close>

text \<open>
  What a callback does when it is called with a payload: it makes some calls to
  \<open>subscribe\<close> and \<open>unsubscribe\<close> of the service, in order, and then returns or throws.
\<close>

datatype call = CallSubscribe string callback | CallUnsubscribe string callback

type_synonym behaviour = "callback \<Rightarrow> json \<Rightarrow> call list \<times> completion"

fun run_call :: "call \<Rightarrow> state \<Rightarrow> state" where
  "run_call (CallSubscribe t h) s = subscribe t h s"
| "run_call (CallUnsubscribe t h) s = unsubscribe t h s"

definition invoke :: "behaviour \<Rightarrow> callback \<Rightarrow> json \<Rightarrow> state \<Rightarrow> state \<times> completion" where
  "invoke beh callback d s =
     (fold run_call (fst (beh callback d)) (s\<lparr>invoked := invoked s @ [(callback, d)]\<rparr>),
      snd (beh callback d))"

text \<open>
  \<open>Array.prototype.forEach\<close> reads the length of the array once, before the first call;
  then, for each index \<open>k\<close> below that length, it calls the function on the element at
  \<open>k\<close> if the array (as it is at that moment) has an index \<open>k\<close>. An exception of the
  function ends the loop and propagates. \<open>forEach_from f a n k\<close> runs the \<open>n\<close>
  iterations from index \<open>k\<close> on the array at reference \<open>a\<close>.
\<close>

fun forEach_from ::
  "(callback \<Rightarrow> state \<Rightarrow> state \<times> completion) \<Rightarrow> ref \<Rightarrow> nat \<Rightarrow> nat \<Rightarrow> state \<Rightarrow>
   state \<times> completion" where
  "forEach_from f a 0 k s = (s, ReturnUndefined)"
| "forEach_from f a (Suc n) k s =
     (if k < length (arrays s a)
      then (case f (arrays s a ! k) s of
              (s', ReturnUndefined) \<Rightarrow> forEach_from f a n (Suc k) s'
            | (s', Throw e) \<Rightarrow> (s', Throw e))
      else forEach_from f a n (Suc k) s)"

definition forEach ::
  "(callback \<Rightarrow> state \<Rightarrow> state \<times> completion) \<Rightarrow> ref \<Rightarrow> state \<Rightarrow> state \<times> completion" where
  "forEach f a s = forEach_from f a (length (arrays s a)) 0 s"

text \<open>
  \<^verbatim>\<open>
  notifyListeners(eventType, data) {
      if (this.listeners.has(eventType)) {
          this.listeners.get(eventType).forEach(callback => {
              try { callback(data); }
              catch (error) { console.error('Error in WebSocket listener:', error); }
          });
      }
  }
  \<close>
\<close>

definition guarded_callback ::
  "behaviour \<Rightarrow> json \<Rightarrow> callback \<Rightarrow> state \<Rightarrow> state \<times> completion" where
  "guarded_callback beh d callback =
     try_catch (invoke beh callback d)
       (\<lambda>error s. (console_error ''Error in WebSocket listener:'' s, ReturnUndefined))"

definition notifyListeners ::
  "behaviour \<Rightarrow> string \<Rightarrow> json \<Rightarrow> state \<Rightarrow> state \<times> completion" where
  "notifyListeners beh eventType d s =
     (case listeners s eventType of
        None \<Rightarrow> (s, ReturnUndefined)
      | Some a \<Rightarrow> forEach (guarded_callback beh d) a s)"

text \<open>The callbacks that a state holds for an event type, in the order of the array.\<close>

definition subscribed :: "state \<Rightarrow> string \<Rightarrow> callback list" where
  "subscribed s eventType =
     (case listeners s eventType of None \<Rightarrow> [] | Some a \<Rightarrow> arrays s a)"

text \<open>The callbacks that one call of \<open>notifyListeners\<close> invokes, in the order of the calls.\<close>

definition notified :: "behaviour \<Rightarrow> string \<Rightarrow> json \<Rightarrow> state \<Rightarrow> callback list" where
  "notified beh eventType d s =
     map fst (drop (length (invoked s)) (invoked (fst (notifyListeners beh eventType d s))))"

subsection \<open>connect, the socket's event handlers and attemptReconnect\<close>

text \<open>
  \<^verbatim>\<open>
  attemptReconnect() {
      if (this.reconnectAttempts < this.maxReconnectAttempts) {
          this.reconnectAttempts++;
          console.log(`Reconnecting... Attempt ${this.reconnectAttempts}`);
          setTimeout(() => { this.connect(); }, this.reconnectDelay);
      } else {
          console.error('Max reconnection attempts reached');
      }
  }
  \<close>
  The value of \<open>setTimeout\<close> is dropped: the service keeps no handle on the timer.
\<close>

definition setTimeout_connect :: "nat \<Rightarrow> state \<Rightarrow> state" where
  "setTimeout_connect delay s = s\<lparr>timeouts := timeouts s @ [delay]\<rparr>"

definition attemptReconnect :: "state \<Rightarrow> state" where
  "attemptReconnect s =
     (if reconnectAttempts s < maxReconnectAttempts s
      then (let s1 = s\<lparr>reconnectAttempts := reconnectAttempts s + 1\<rparr>;
                s2 = s1\<lparr>console := console s1 @
                       [ConsoleLogNum ''Reconnecting... Attempt '' (reconnectAttempts s1)]\<rparr>
            in setTimeout_connect (reconnectDelay s2) s2)
      else console_error ''Max reconnection attempts reached'' s)"

text \<open>
  \<^verbatim>\<open>
  connect() {
      try {
          this.ws = new WebSocket(`${WS_URL}/ws/stocks`);
          this.ws.onopen = ...; this.ws.onmessage = ...;
          this.ws.onerror = ...; this.ws.onclose = ...;
      } catch (error) { console.error('Failed to connect WebSocket:', error); }
  }
  \<close>
  \<open>new WebSocket(url)\<close> throws a SyntaxError when the URL is not a valid WebSocket URL
  (\<open>WS_URL\<close> comes from the build's environment: \<open>url_ok\<close>); otherwise it makes a new
  socket in state CONNECTING. The four handlers are the same closures over \<open>this\<close> for
  every socket; the browser calls them (\<open>deliver\<close> below).
\<close>

definition new_WebSocket :: "bool \<Rightarrow> state \<Rightarrow> state \<times> completion" where
  "new_WebSocket url_ok s =
     (if url_ok
      then (s\<lparr>ws := Some (next_socket s),
              sockets := (sockets s)(next_socket s := CONNECTING),
              next_socket := Suc (next_socket s)\<rparr>, ReturnUndefined)
      else (s, Throw SyntaxError))"

definition connect :: "bool \<Rightarrow> state \<Rightarrow> state \<times> completion" where
  "connect url_ok =
     try_catch (new_WebSocket url_ok)
       (\<lambda>error s. (console_error ''Failed to connect WebSocket:'' s, ReturnUndefined))"

text \<open>
  \<^verbatim>\<open>
  this.ws.onopen = () => {
      console.log('WebSocket connected');
      this.reconnectAttempts = 0;
      this.notifyListeners('connection', { status: 'connected' });
  };
  \<close>
\<close>

definition onopen :: "behaviour \<Rightarrow> state \<Rightarrow> state \<times> completion" where
  "onopen beh s =
     notifyListeners beh ''connection'' (JObj [(''status'', JStr ''connected'')])
       ((console_log ''WebSocket connected'' s)\<lparr>reconnectAttempts := 0\<rparr>)"

text \<open>
  \<^verbatim>\<open>
  this.ws.onmessage = (event) => {
      try {
          const data = JSON.parse(event.data);
          this.notifyListeners(data.type, data);
      } catch (error) { console.error('Error parsing WebSocket message:', error); }
  };
  \<close>
  \<open>JSON.parse\<close> is the browser's: it is a parameter, \<open>None\<close> where it throws a
  SyntaxError. A decoded object lists each of its properties once. \<open>data.type\<close> throws a
  TypeError on \<open>null\<close>, and is \<open>undefined\<close> (\<open>None\<close>) on an object without that property
  and on a number, a string, a boolean or an array. Every key of the \<open>listeners\<close> Map is
  a string (\<open>subscribe\<close> is only called with string literals), so for a \<open>data.type\<close> that
  is not a string \<open>listeners.has\<close> is false.
\<close>

fun get_type :: "json \<Rightarrow> exn + json option" where
  "get_type JNull = Inl TypeError"
| "get_type (JObj props) = Inr (map_of props ''type'')"
| "get_type _ = Inr None"

definition notifyListeners_key ::
  "behaviour \<Rightarrow> json option \<Rightarrow> json \<Rightarrow> state \<Rightarrow> state \<times> completion" where
  "notifyListeners_key beh key d s =
     (case key of
        Some (JStr eventType) \<Rightarrow> notifyListeners beh eventType d s
      | _ \<Rightarrow> (s, ReturnUndefined))"

definition parse_and_notify ::
  "(string \<Rightarrow> json option) \<Rightarrow> behaviour \<Rightarrow> string \<Rightarrow> state \<Rightarrow> state \<times> completion" where
  "parse_and_notify JSON_parse beh frame s =
     (case JSON_parse frame of
        None \<Rightarrow> (s, Throw SyntaxError)
      | Some d \<Rightarrow>
          (case get_type d of
             Inl e \<Rightarrow> (s, Throw e)
           | Inr key \<Rightarrow> notifyListeners_key beh key d s))"

definition onmessage ::
  "(string \<Rightarrow> json option) \<Rightarrow> behaviour \<Rightarrow> string \<Rightarrow> state \<Rightarrow> state \<times> completion" where
  "onmessage JSON_parse beh frame =
     try_catch (parse_and_notify JSON_parse beh frame)
       (\<lambda>error s. (console_error ''Error parsing WebSocket message:'' s, ReturnUndefined))"

text \<open>
  \<^verbatim>\<open>
  this.ws.onerror = (error) => {
      console.error('WebSocket error:', error);
      this.notifyListeners('error', { error });
  };
  this.ws.onclose = () => {
      console.log('WebSocket disconnected');
      this.notifyListeners('connection', { status: 'disconnected' });
      this.attemptReconnect();
  };
  \<close>
\<close>

definition onerror :: "behaviour \<Rightarrow> json \<Rightarrow> state \<Rightarrow> state \<times> completion" where
  "onerror beh error s =
     notifyListeners beh ''error'' (JObj [(''error'', error)])
       (console_error ''WebSocket error:'' s)"

definition onclose :: "behaviour \<Rightarrow> state \<Rightarrow> state \<times> completion" where
  "onclose beh s =
     andThen
       (notifyListeners beh ''connection'' (JObj [(''status'', JStr ''disconnected'')])
          (console_log ''WebSocket disconnected'' s))
       (\<lambda>s. (attemptReconnect s, ReturnUndefined))"

subsection \<open>send, disconnect and isConnected\<close>

text \<open>
  \<^verbatim>\<open>
  send(data) {
      if (this.ws && this.ws.readyState === WebSocket.OPEN) {
          this.ws.send(JSON.stringify(data));
      } else { console.error('WebSocket is not connected'); }
  }
  disconnect() {
      if (this.ws) { this.ws.close(); this.ws = null; }
      this.listeners.clear();
  }
  isConnected() { return this.ws && this.ws.readyState === WebSocket.OPEN; }
  \<close>
  \<open>WebSocket.close()\<close> does nothing on a socket that is CLOSING or CLOSED and puts any
  other socket in state CLOSING; its close event comes later. \<open>JSON.stringify\<close> is a
  parameter.
\<close>

definition isConnected :: "state \<Rightarrow> bool" where
  "isConnected s = (case ws s of None \<Rightarrow> False | Some r \<Rightarrow> sockets s r = OPEN)"

definition send :: "(json \<Rightarrow> string) \<Rightarrow> json \<Rightarrow> state \<Rightarrow> state \<times> completion" where
  "send JSON_stringify d s =
     (case ws s of
        Some r \<Rightarrow>
          if sockets s r = OPEN
          then (s\<lparr>transmitted := transmitted s @ [(r, JSON_stringify d)]\<rparr>, ReturnUndefined)
          else (console_error ''WebSocket is not connected'' s, ReturnUndefined)
      | None \<Rightarrow> (console_error ''WebSocket is not connected'' s, ReturnUndefined))"

definition close :: "ref \<Rightarrow> state \<Rightarrow> state" where
  "close r s =
     s\<lparr>sockets := (sockets s)(r := (case sockets s r of
                                       CLOSED \<Rightarrow> CLOSED
                                     | _ \<Rightarrow> CLOSING))\<rparr>"

definition disconnect :: "state \<Rightarrow> state" where
  "disconnect s =
     (let s1 = (case ws s of Some r \<Rightarrow> (close r s)\<lparr>ws := None\<rparr> | None \<Rightarrow> s)
      in s1\<lparr>listeners := Map.empty\<rparr>)"

subsection \<open>The browser's event loop\<close>

text \<open>
  The browser runs one callback at a time, to its end: an event of a socket that
  \<open>connect\<close> made (the socket's \<open>readyState\<close> is set before its handler runs), or the
  oldest \<open>setTimeout\<close> callback that has not run yet, which calls \<open>connect\<close>.
\<close>

datatype event =
  SocketOpen ref | SocketMessage ref string | SocketError ref json | SocketClose ref
  | TimerFires

fun deliver ::
  "(string \<Rightarrow> json option) \<Rightarrow> behaviour \<Rightarrow> bool \<Rightarrow> event \<Rightarrow> state \<Rightarrow> state \<times> completion" where
  "deliver JSON_parse beh url_ok (SocketOpen r) s =
     onopen beh (s\<lparr>sockets := (sockets s)(r := OPEN)\<rparr>)"
| "deliver JSON_parse beh url_ok (SocketMessage r frame) s = onmessage JSON_parse beh frame s"
| "deliver JSON_parse beh url_ok (SocketError r error) s = onerror beh error s"
| "deliver JSON_parse beh url_ok (SocketClose r) s =
     onclose beh (s\<lparr>sockets := (sockets s)(r := CLOSED)\<rparr>)"
| "deliver JSON_parse beh url_ok TimerFires s =
     (if fired s < length (timeouts s)
      then connect url_ok (s\<lparr>fired := Suc (fired s)\<rparr>)
      else (s, ReturnUndefined))"

fun run ::
  "(string \<Rightarrow> json option) \<Rightarrow> behaviour \<Rightarrow> bool \<Rightarrow> event list \<Rightarrow> state \<Rightarrow>
   state \<times> completion" where
  "run JSON_parse beh url_ok [] s = (s, ReturnUndefined)"
| "run JSON_parse beh url_ok (e # es) s =
     andThen (deliver JSON_parse beh url_ok e s) (run JSON_parse beh url_ok es)"

fun is_close :: "event \<Rightarrow> bool" where
  "is_close (SocketClose r) = True"
| "is_close _ = False"

fun is_open :: "event \<Rightarrow> bool" where
  "is_open (SocketOpen r) = True"
| "is_open _ = False"

section \<open>The React components\<close>

text \<open>
  What the components read of a JavaScript value: a primitive, or a reference to an
  object, an array or a Date, which \<open>===\<close> compares by identity. An object is the map
  from its property names to their values; reading a property it does not have gives
  \<open>undefined\<close>, here \<open>None\<close>, so \<open>===\<close> on two property reads is equality of
  \<open>jsval option\<close>, and \<open>{...a, ...b}\<close> is \<open>a ++ b\<close>.
\<close>

datatype jsval = VNull | VBool bool | VNum int | VStr string | VRef nat

type_synonym object = "string \<rightharpoonup> jsval"

subsection \<open>AlertBar (frontend/src/components/AlertBar.jsx)\<close>

text \<open>
  \<^verbatim>\<open>
  const [alerts, setAlerts] = useState([]);
  const [isVisible, setIsVisible] = useState(false);
  const handleAlert = (data) => {
      if (data.type === 'alert' || data.type === 'rule_alert') {
          const newAlert = { id: Date.now(), ...data.data, timestamp: new Date() };
          setAlerts(prev => [newAlert, ...prev].slice(0, 5)); // Keep last 5 alerts
          setIsVisible(true);
          setTimeout(() => {
              setAlerts(prev => prev.filter(a => a.id !== newAlert.id));
          }, 10000);
      }
  };
  const removeAlert = (id) => { setAlerts(prev => prev.filter(alert => alert.id !== id)); };
  \<close>
  Of its argument \<open>handleAlert\<close> reads \<open>data.type\<close> and the own properties of
  \<open>data.data\<close> (none when \<open>data.data\<close> is absent or a primitive): the record
  \<open>message\<close>. \<open>Date.now()\<close> and \<open>new Date()\<close> are read from the environment (\<open>now\<close>,
  \<open>date\<close>). The state of the component is the two \<open>useState\<close> cells and the ids that
  the pending 10000 ms timers hold, in the order the timers were set.
\<close>

record message =
  msg_type :: "jsval option"
  msg_data :: object

record alertBar =
  alerts :: "object list"
  isVisible :: bool
  timers :: "jsval option list"

definition useState_initial :: alertBar where
  "useState_initial = \<lparr>alerts = [], isVisible = False, timers = []\<rparr>"

definition newAlert :: "int \<Rightarrow> jsval \<Rightarrow> message \<Rightarrow> object" where
  "newAlert now date data = ([''id'' \<mapsto> VNum now] ++ msg_data data)(''timestamp'' \<mapsto> date)"

definition handleAlert :: "int \<Rightarrow> jsval \<Rightarrow> message \<Rightarrow> alertBar \<Rightarrow> alertBar" where
  "handleAlert now date data st =
     (if msg_type data = Some (VStr ''alert'') \<or> msg_type data = Some (VStr ''rule_alert'')
      then st\<lparr>alerts := take 5 (newAlert now date data # alerts st),
              isVisible := True,
              timers := timers st @ [newAlert now date data ''id'']\<rparr>
      else st)"

definition removeAlert :: "jsval option \<Rightarrow> alertBar \<Rightarrow> alertBar" where
  "removeAlert id' st = st\<lparr>alerts := filter (\<lambda>alert. alert ''id'' \<noteq> id') (alerts st)\<rparr>"

text \<open>The oldest pending timer fires: its callback filters on the id it holds.\<close>

definition timer_fires :: "alertBar \<Rightarrow> alertBar" where
  "timer_fires st =
     (case timers st of
        [] \<Rightarrow> st
      | id' # rest \<Rightarrow>
          st\<lparr>alerts := filter (\<lambda>a. a ''id'' \<noteq> id') (alerts st), timers := rest\<rparr>)"

datatype alert_event = Handle int jsval message | Dismiss "jsval option" | Expire

fun alert_step :: "alert_event \<Rightarrow> alertBar \<Rightarrow> alertBar" where
  "alert_step (Handle now date data) st = handleAlert now date data st"
| "alert_step (Dismiss id') st = removeAlert id' st"
| "alert_step Expire st = timer_fires st"

definition alert_run :: "alert_event list \<Rightarrow> alertBar \<Rightarrow> alertBar" where
  "alert_run evs st = fold alert_step evs st"

text \<open>Whether a message is of the alert class, and the alerts that a run constructs.\<close>

definition alert_class :: "message \<Rightarrow> bool" where
  "alert_class data \<longleftrightarrow>
     msg_type data = Some (VStr ''alert'') \<or> msg_type data = Some (VStr ''rule_alert'')"

fun constructed :: "alert_event list \<Rightarrow> object list" where
  "constructed [] = []"
| "constructed (Handle now date data # evs) =
     (if alert_class data then newAlert now date data # constructed evs else constructed evs)"
| "constructed (e # evs) = constructed evs"

fun is_alert :: "alert_event \<Rightarrow> bool" where
  "is_alert (Handle now date data) = alert_class data"
| "is_alert _ = False"

subsection \<open>Dashboard (frontend/src/pages/Dashboard.jsx)\<close>

text \<open>
  \<^verbatim>\<open>
  const [dashboardData, setDashboardData] = useState(null);
  const updateStockData = (updatedStock) => {
      if (!dashboardData) return;
      setDashboardData(prev => ({
          ...prev,
          stocks: prev.stocks.map(stock =>
              stock.symbol === updatedStock.symbol ? { ...stock, ...updatedStock } : stock
          )
      }));
  };
  \<close>
  A snapshot is the object that the REST layer delivers: the array \<open>stocks\<close> and
  \<open>summary\<close>. \<open>dashboardData\<close> is the value of the state cell that the closure
  \<open>updateStockData\<close> holds (\<open>None\<close> for \<open>null\<close>: nothing loaded), and \<open>prev\<close> is the value
  of the cell when React runs the updater; reading \<open>prev.stocks\<close> of \<open>null\<close> throws a
  TypeError. The result is the new value of the cell.
\<close>

record snapshot =
  stocks :: "object list"
  summary :: "jsval option"

definition merge_stock :: "object \<Rightarrow> object \<Rightarrow> object" where
  "merge_stock updatedStock stock =
     (if stock ''symbol'' = updatedStock ''symbol'' then stock ++ updatedStock else stock)"

definition updateStockData ::
  "snapshot option \<Rightarrow> object \<Rightarrow> snapshot option \<Rightarrow> exn + snapshot option" where
  "updateStockData dashboardData updatedStock prev =
     (if dashboardData = None then Inr prev
      else (case prev of
              None \<Rightarrow> Inl TypeError
            | Some p \<Rightarrow> Inr (Some (p\<lparr>stocks := map (merge_stock updatedStock) (stocks p)\<rparr>))))"

text \<open>
  \<^verbatim>\<open>
  useEffect(() => {
      fetchDashboardData();
      websocketService.connect();
      websocketService.subscribe('connection', (data) => { ... });
      websocketService.subscribe('stock_update', (data) => {
          updateStockData(data);
      });
      return () => { websocketService.disconnect(); };
  }, []);
  \<close>
  The effect has the empty dependency list: React runs it once, after the first render,
  and never again while the component is mounted. The callback it subscribes to
  \<open>stock_update\<close> therefore calls the \<open>updateStockData\<close> of the first render for as long
  as the component lives, and the \<open>dashboardData\<close> which that closure holds is the initial
  value of the cell, \<open>useState(null)\<close>; \<open>fetchDashboardData\<close> sets the cell later, which
  makes new closures in later renders but does not change this one.
\<close>

definition first_render_dashboardData :: "snapshot option" where
  "first_render_dashboardData = None"

definition stock_update_callback :: "object \<Rightarrow> snapshot option \<Rightarrow> exn + snapshot option" where
  "stock_update_callback data prev = updateStockData first_render_dashboardData data prev"

section \<open>Predicates of the statements\<close>

text \<open>
  The invariant of the registry: an array held in the \<open>listeners\<close> Map has been allocated,
  and no two event types hold the same array. It holds of \<open>constructor\<close> and every method
  and event handler keeps it (\<open>registry_ok_run\<close> below).
\<close>

definition registry_ok :: "state \<Rightarrow> bool" where
  "registry_ok s \<longleftrightarrow>
     (\<forall>t a. listeners s t = Some a \<longrightarrow> a < next_array s) \<and>
     (\<forall>t1 t2 a. listeners s t1 = Some a \<longrightarrow> listeners s t2 = Some a \<longrightarrow> t1 = t2)"

definition holds_array :: "state \<Rightarrow> string \<Rightarrow> ref \<Rightarrow> bool" where
  "holds_array s t a \<longleftrightarrow> registry_ok s \<and> listeners s t = Some a"

text \<open>
  What a list of calls of a callback does not contain: a call of \<open>unsubscribe\<close> for an
  event type, a call of \<open>subscribe\<close> of one callback to an event type.
\<close>

definition no_unsubscribe :: "string \<Rightarrow> call list \<Rightarrow> bool" where
  "no_unsubscribe t cs \<longleftrightarrow> (\<forall>c \<in> set cs. case c of CallUnsubscribe t' h \<Rightarrow> t' \<noteq> t | _ \<Rightarrow> True)"

definition no_subscribe :: "string \<Rightarrow> callback \<Rightarrow> call list \<Rightarrow> bool" where
  "no_subscribe t h cs \<longleftrightarrow> CallSubscribe t h \<notin> set cs"

text \<open>The behaviour that makes the same calls and returns where the given one throws.\<close>

definition never_throws :: "behaviour \<Rightarrow> behaviour" where
  "never_throws beh = (\<lambda>h d. (fst (beh h d), ReturnUndefined))"

text \<open>
  The part of the state that no callback can reach, and the event handlers seen as
  functions that do not read the console.
\<close>

definition connection_of :: "state \<Rightarrow> (ref option \<times> nat \<times> nat \<times> nat) \<times> ((ref \<Rightarrow> readyState) \<times> ref \<times> nat list \<times> nat \<times> (ref \<times> string) list)" where
  "connection_of s =
     ((ws s, reconnectAttempts s, maxReconnectAttempts s, reconnectDelay s),
      (sockets s, next_socket s, timeouts s, fired s, transmitted s))"

definition console_blind :: "(state \<Rightarrow> state \<times> completion) \<Rightarrow> bool" where
  "console_blind H \<longleftrightarrow>
     (\<forall>s c. \<exists>c'. H (s\<lparr>console := c\<rparr>) = ((fst (H s))\<lparr>console := c'\<rparr>, snd (H s)))"

section \<open>Concrete states and inputs\<close>

text \<open>Behaviours: callbacks that do nothing, a callback that removes itself, and a callback
  that subscribes another one and then throws.\<close>

definition quiet :: behaviour where
  "quiet = (\<lambda>h d. ([], ReturnUndefined))"

definition unsubscribes_itself :: behaviour where
  "unsubscribes_itself = (\<lambda>h d. ([CallUnsubscribe ''stock_update'' h], ReturnUndefined))"

definition subscribes_and_throws :: behaviour where
  "subscribes_and_throws =
     (\<lambda>h d. if h = 1 then ([CallSubscribe ''stock_update'' 3], Throw (Raised ''boom''))
            else ([], ReturnUndefined))"

text \<open>Registries: two callbacks on one event type, one callback subscribed twice, and
  one callback subscribed before and after another.\<close>

definition two_listeners :: state where
  "two_listeners = subscribe ''stock_update'' 2 (subscribe ''stock_update'' 1 constructor)"

definition registered_twice :: state where
  "registered_twice = subscribe ''alert'' 1 (subscribe ''alert'' 1 constructor)"

definition registered_around :: state where
  "registered_around =
     subscribe ''alert'' 1 (subscribe ''alert'' 2 (subscribe ''alert'' 1 constructor))"

text \<open>A decoder that knows two frames, an object of type \<open>alert\<close> and \<open>null\<close>, and a
  serializer.\<close>

definition quoted :: "string \<Rightarrow> string" where
  "quoted s = CHR 0x22 # s @ [CHR 0x22]"

definition alert_frame :: string where
  "alert_frame = ''{'' @ quoted ''type'' @ '':'' @ quoted ''alert'' @ ''}''"

definition example_parse :: "string \<Rightarrow> json option" where
  "example_parse frame =
     (if frame = alert_frame then Some (JObj [(''type'', JStr ''alert'')])
      else if frame = ''null'' then Some JNull
      else None)"

definition example_stringify :: "json \<Rightarrow> string" where
  "example_stringify d = (case d of JNum n \<Rightarrow> (if n = 1 then ''1'' else ''0'') | _ \<Rightarrow> ''null'')"

text \<open>
  A service after \<open>connect()\<close>, after the socket has opened, with a subscriber for
  \<open>alert\<close>, and after the first socket failed to open; and six failures to open in a
  row, each followed by the reconnect timer (when one is pending).
\<close>

definition connecting :: state where
  "connecting = fst (connect True constructor)"

definition connected :: state where
  "connected = fst (deliver example_parse quiet True (SocketOpen 0) connecting)"

definition listening :: state where
  "listening = subscribe ''alert'' 7 connected"

definition after_one_failure :: state where
  "after_one_failure =
     fst (run example_parse quiet True [SocketError 0 JNull, SocketClose 0] connecting)"

definition six_failures :: "event list" where
  "six_failures =
     [SocketError 0 JNull, SocketClose 0, TimerFires,
      SocketError 1 JNull, SocketClose 1, TimerFires,
      SocketError 2 JNull, SocketClose 2, TimerFires,
      SocketError 3 JNull, SocketClose 3, TimerFires,
      SocketError 4 JNull, SocketClose 4, TimerFires,
      SocketError 5 JNull, SocketClose 5, TimerFires]"

text \<open>Alert messages: seven at different clock readings, two at the same one.\<close>

definition alert_message :: "string \<Rightarrow> message" where
  "alert_message symbol =
     \<lparr>msg_type = Some (VStr ''alert''),
      msg_data = [''symbol'' \<mapsto> VStr symbol, ''message'' \<mapsto> VStr ''Price above threshold'']\<rparr>"

definition seven_alerts :: "alert_event list" where
  "seven_alerts =
     [Handle 1 (VRef 1) (alert_message ''AAPL''), Handle 2 (VRef 2) (alert_message ''MSFT''),
      Handle 3 (VRef 3) (alert_message ''GOOG''), Handle 4 (VRef 4) (alert_message ''AMZN''),
      Handle 5 (VRef 5) (alert_message ''TSLA''), Handle 6 (VRef 6) (alert_message ''META''),
      Handle 7 (VRef 7) (alert_message ''NFLX'')]"

definition same_millisecond :: "alert_event list" where
  "same_millisecond =
     [Handle 1000 (VRef 1) (alert_message ''AAPL''), Handle 1000 (VRef 2) (alert_message ''MSFT'')]"

text \<open>The snapshot and the updates of the dashboard.\<close>

definition aapl_snapshot :: snapshot where
  "aapl_snapshot =
     \<lparr>stocks = [[''symbol'' \<mapsto> VStr ''AAPL'', ''price'' \<mapsto> VNum 100, ''volume'' \<mapsto> VNum 1000],
                [''symbol'' \<mapsto> VStr ''MSFT'', ''price'' \<mapsto> VNum 300, ''volume'' \<mapsto> VNum 2000]],
      summary = Some (VRef 0)\<rparr>"

definition aapl_update :: object where
  "aapl_update = [''symbol'' \<mapsto> VStr ''AAPL'', ''price'' \<mapsto> VNum 105]"

definition zzzz_update :: object where
  "zzzz_update = [''symbol'' \<mapsto> VStr ''ZZZZ'', ''price'' \<mapsto> VNum 50]"

section \<open>Lemmas\<close>

lemmas service_defs =
  constructor_def subscribe_def unsubscribe_def push_def splice1_def Let_def
  notifyListeners_def forEach_def guarded_callback_def try_catch_def invoke_def
  console_error_def console_log_def subscribed_def notified_def andThen_def
  connect_def new_WebSocket_def onopen_def onclose_def onerror_def onmessage_def
  parse_and_notify_def notifyListeners_key_def attemptReconnect_def setTimeout_connect_def
  send_def disconnect_def close_def isConnected_def

subsection \<open>The registry\<close>

lemma registry_ok_constructor: "registry_ok constructor"
  by (simp add: registry_ok_def constructor_def)

lemma registry_ok_subscribe: "registry_ok s \<Longrightarrow> registry_ok (subscribe t h s)"
  unfolding registry_ok_def subscribe_def push_def Let_def
  by (auto split: option.splits if_splits simp: less_Suc_eq)

lemma registry_ok_unsubscribe: "registry_ok s \<Longrightarrow> registry_ok (unsubscribe t h s)"
  unfolding registry_ok_def unsubscribe_def
  by (auto split: option.splits)

lemma listeners_subscribe_same:
  "listeners s t = Some a \<Longrightarrow> listeners (subscribe t' h s) t = Some a"
  unfolding subscribe_def push_def Let_def
  by (auto split: option.splits if_splits)

lemma listeners_unsubscribe: "listeners (unsubscribe t' h s) = listeners s"
  unfolding unsubscribe_def by (auto split: option.splits)

lemma invoked_subscribe: "invoked (subscribe t h s) = invoked s"
  unfolding subscribe_def push_def Let_def by (auto split: option.splits)

lemma invoked_unsubscribe: "invoked (unsubscribe t h s) = invoked s"
  unfolding unsubscribe_def by (auto split: option.splits)

lemma arrays_subscribe:
  assumes "registry_ok s" "listeners s t = Some a"
  shows "arrays (subscribe t' h s) a = (if t' = t then arrays s a @ [h] else arrays s a)"
  using assms unfolding registry_ok_def subscribe_def push_def Let_def
  by (auto split: option.splits if_splits)

lemma indexOf_Some: "indexOf xs x = Some i \<Longrightarrow> i < length xs \<and> xs ! i = x \<and> x \<notin> set (take i xs)"
  by (induction xs arbitrary: i) (auto split: if_splits)

lemma indexOf_None: "indexOf xs x = None \<longleftrightarrow> x \<notin> set xs"
  by (induction xs) auto

lemma splice1_indexOf: "indexOf xs x = Some i \<Longrightarrow> splice1 i xs = remove1 x xs"
  unfolding splice1_def
  by (induction xs arbitrary: i) (auto split: if_splits)

lemma arrays_unsubscribe:
  assumes "registry_ok s" "listeners s t = Some a"
  shows "arrays (unsubscribe t' h s) a = (if t' = t then remove1 h (arrays s a) else arrays s a)"
  using assms unfolding registry_ok_def unsubscribe_def
  by (auto split: option.splits simp: splice1_indexOf indexOf_None remove1_idem)

subsection \<open>One pass of forEach over an array that callbacks only append to\<close>

lemma run_call_keeps:
  "holds_array s t a \<Longrightarrow> holds_array (run_call c s) t a"
  unfolding holds_array_def
  by (cases c) (auto simp: registry_ok_subscribe registry_ok_unsubscribe
      listeners_subscribe_same listeners_unsubscribe)

lemma run_call_invoked: "invoked (run_call c s) = invoked s"
  by (cases c) (auto simp: invoked_subscribe invoked_unsubscribe)

lemma fold_run_call_invoked: "invoked (fold run_call cs s) = invoked s"
  by (induction cs arbitrary: s) (auto simp: run_call_invoked)

lemma fold_run_call_keeps:
  "holds_array s t a \<Longrightarrow> holds_array (fold run_call cs s) t a"
  by (induction cs arbitrary: s) (auto simp: run_call_keeps)

lemma run_call_grows:
  assumes "holds_array s t a" "no_unsubscribe t [c]"
  shows "\<exists>e. arrays (run_call c s) a = arrays s a @ e"
  using assms unfolding holds_array_def no_unsubscribe_def
  by (cases c) (auto simp: arrays_subscribe arrays_unsubscribe)

lemma fold_run_call_grows:
  assumes "holds_array s t a" "no_unsubscribe t cs"
  shows "\<exists>e. arrays (fold run_call cs s) a = arrays s a @ e"
  using assms
proof (induction cs arbitrary: s)
  case Nil
  then show ?case by simp
next
  case (Cons c cs)
  from Cons.prems have c: "no_unsubscribe t [c]" and cs: "no_unsubscribe t cs"
    by (auto simp: no_unsubscribe_def)
  from run_call_grows[OF Cons.prems(1) c] obtain e1
    where e1: "arrays (run_call c s) a = arrays s a @ e1" by blast
  from Cons.IH[OF run_call_keeps[OF Cons.prems(1)] cs] obtain e2
    where "arrays (fold run_call cs (run_call c s)) a = arrays (run_call c s) a @ e2" by blast
  with e1 show ?case by simp
qed

lemma guarded_callback_returns: "snd (guarded_callback beh d h s) = ReturnUndefined"
  unfolding guarded_callback_def try_catch_def
  by (auto split: prod.splits completion.splits)

lemma guarded_callback_invoked:
  "invoked (fst (guarded_callback beh d h s)) = invoked s @ [(h, d)]"
  unfolding guarded_callback_def try_catch_def invoke_def console_error_def
  by (auto split: prod.splits completion.splits simp: fold_run_call_invoked)

lemma guarded_callback_keeps:
  "holds_array s t a \<Longrightarrow> holds_array (fst (guarded_callback beh d h s)) t a"
proof -
  assume h: "holds_array s t a"
  have "holds_array (s\<lparr>invoked := invoked s @ [(h, d)]\<rparr>) t a"
    using h by (simp add: holds_array_def registry_ok_def)
  from fold_run_call_keeps[OF this]
  show ?thesis
    unfolding guarded_callback_def try_catch_def invoke_def console_error_def
    by (auto split: prod.splits completion.splits simp: holds_array_def registry_ok_def)
qed

lemma guarded_callback_grows:
  assumes "holds_array s t a" "no_unsubscribe t (fst (beh h d))"
  shows "\<exists>e. arrays (fst (guarded_callback beh d h s)) a = arrays s a @ e"
proof -
  have "holds_array (s\<lparr>invoked := invoked s @ [(h, d)]\<rparr>) t a"
    using assms(1) by (simp add: holds_array_def registry_ok_def)
  from fold_run_call_grows[OF this assms(2)]
  show ?thesis
    unfolding guarded_callback_def try_catch_def invoke_def console_error_def
    by (auto split: prod.splits completion.splits)
qed

lemma forEach_from_stable:
  assumes "holds_array s t a" "arrays s a = xs @ e" "k + n = length xs"
    and "\<forall>h \<in> set xs. no_unsubscribe t (fst (beh h d))"
  shows "\<exists>s' e'. forEach_from (guarded_callback beh d) a n k s = (s', ReturnUndefined) \<and>
           invoked s' = invoked s @ map (\<lambda>h. (h, d)) (drop k xs) \<and>
           holds_array s' t a \<and> arrays s' a = xs @ e'"
  using assms
proof (induction n arbitrary: k s e)
  case 0
  then show ?case by simp
next
  case (Suc n)
  let ?h = "xs ! k"
  let ?r = "guarded_callback beh d ?h s"
  from Suc.prems have klt: "k < length xs" by simp
  then have hk: "arrays s a ! k = ?h" and kl: "k < length (arrays s a)"
    using Suc.prems(2) by (simp_all add: nth_append)
  have hin: "?h \<in> set xs" using klt by simp
  obtain s1 where r: "?r = (s1, ReturnUndefined)"
    using guarded_callback_returns[of beh d ?h s] by (cases ?r) auto
  have inv1: "invoked s1 = invoked s @ [(?h, d)]"
    using guarded_callback_invoked[of beh d ?h s] r by simp
  have keep1: "holds_array s1 t a"
    using guarded_callback_keeps[OF Suc.prems(1), of beh d ?h] r by simp
  from guarded_callback_grows[OF Suc.prems(1), of beh ?h d] hin Suc.prems(4) r
  obtain e1 where "arrays s1 a = arrays s a @ e1" by auto
  then have arr1: "arrays s1 a = xs @ (e @ e1)" using Suc.prems(2) by simp
  from Suc.prems(3) have "Suc k + n = length xs" by simp
  from Suc.IH[OF keep1 arr1 this Suc.prems(4)] obtain s' e' where
    *: "forEach_from (guarded_callback beh d) a n (Suc k) s1 = (s', ReturnUndefined)"
       "invoked s' = invoked s1 @ map (\<lambda>h. (h, d)) (drop (Suc k) xs)"
       "holds_array s' t a" "arrays s' a = xs @ e'" by blast
  have "drop k xs = ?h # drop (Suc k) xs" using klt by (simp add: Cons_nth_drop_Suc)
  with * inv1 r kl hk show ?case by simp
qed

subsection \<open>What a pass does not depend on: the console and the exceptions\<close>

lemma subscribe_console: "subscribe t h (s\<lparr>console := c\<rparr>) = (subscribe t h s)\<lparr>console := c\<rparr>"
  unfolding subscribe_def push_def Let_def by (auto split: option.splits)

lemma unsubscribe_console:
  "unsubscribe t h (s\<lparr>console := c\<rparr>) = (unsubscribe t h s)\<lparr>console := c\<rparr>"
  unfolding unsubscribe_def by (auto split: option.splits)

lemma run_call_console: "run_call x (s\<lparr>console := c\<rparr>) = (run_call x s)\<lparr>console := c\<rparr>"
  by (cases x) (simp_all add: subscribe_console unsubscribe_console)

lemma fold_run_call_console:
  "fold run_call cs (s\<lparr>console := c\<rparr>) = (fold run_call cs s)\<lparr>console := c\<rparr>"
  by (induction cs arbitrary: s) (simp_all add: run_call_console)

lemma guarded_callback_console:
  "\<exists>c'. fst (guarded_callback beh d h (s\<lparr>console := c\<rparr>)) =
         (fst (guarded_callback (never_throws beh) d h s))\<lparr>console := c'\<rparr>"
proof -
  have *: "fold run_call cs (s\<lparr>console := c, invoked := i\<rparr>) =
        (fold run_call cs (s\<lparr>invoked := i\<rparr>))\<lparr>console := c\<rparr>" for cs i
  proof -
    have "s\<lparr>console := c, invoked := i\<rparr> = (s\<lparr>invoked := i\<rparr>)\<lparr>console := c\<rparr>" by simp
    then show ?thesis by (simp only: fold_run_call_console)
  qed
  show ?thesis
    unfolding guarded_callback_def try_catch_def invoke_def console_error_def never_throws_def
    by (auto split: prod.splits completion.splits simp: *)
qed

lemma forEach_from_console:
  "\<exists>c'. fst (forEach_from (guarded_callback beh d) a n k (s\<lparr>console := c\<rparr>)) =
         (fst (forEach_from (guarded_callback (never_throws beh) d) a n k s))\<lparr>console := c'\<rparr>"
proof (induction n arbitrary: k s c)
  case 0
  show ?case by auto
next
  case (Suc n)
  show ?case
  proof (cases "k < length (arrays s a)")
    case False
    with Suc.IH[where k = "Suc k" and s = s and c = c] show ?thesis by simp
  next
    case True
    let ?h = "arrays s a ! k"
    obtain s1 where r1: "guarded_callback beh d ?h (s\<lparr>console := c\<rparr>) = (s1, ReturnUndefined)"
      using guarded_callback_returns[where beh = beh and d = d and h = ?h and s = "s\<lparr>console := c\<rparr>"]
      by (cases "guarded_callback beh d ?h (s\<lparr>console := c\<rparr>)") auto
    obtain s2 where r2: "guarded_callback (never_throws beh) d ?h s = (s2, ReturnUndefined)"
      using guarded_callback_returns[of "never_throws beh" d ?h s]
      by (cases "guarded_callback (never_throws beh) d ?h s") auto
    from guarded_callback_console[where beh = beh and d = d and h = ?h and s = s and c = c] r1 r2
    obtain c1 where "s1 = s2\<lparr>console := c1\<rparr>" by auto
    with Suc.IH[where k = "Suc k" and s = s2 and c = c1] True r1 r2 show ?thesis by simp
  qed
qed

lemma notifyListeners_returns: "snd (notifyListeners beh t d s) = ReturnUndefined"
proof -
  have "snd (forEach_from (guarded_callback beh d) a n k s) = ReturnUndefined" for a n k s
  proof (induction n arbitrary: k s)
    case 0
    show ?case by simp
  next
    case (Suc n)
    show ?case
      using guarded_callback_returns[of beh d "arrays s a ! k" s] Suc.IH
      by (cases "guarded_callback beh d (arrays s a ! k) s") auto
  qed
  then show ?thesis
    unfolding notifyListeners_def forEach_def by (auto split: option.splits)
qed

lemma notifyListeners_console:
  "\<exists>c'. fst (notifyListeners beh t d (s\<lparr>console := c\<rparr>)) =
         (fst (notifyListeners (never_throws beh) t d s))\<lparr>console := c'\<rparr>"
  unfolding notifyListeners_def forEach_def
  using forEach_from_console[where beh = beh and d = d and k = 0 and s = s and c = c]
  by (auto split: option.splits)

lemma notifyListeners_stable:
  assumes "registry_ok s"
    and "\<forall>h \<in> set (subscribed s t). no_unsubscribe t (fst (beh h d))"
  shows "invoked (fst (notifyListeners beh t d s)) =
           invoked s @ map (\<lambda>h. (h, d)) (subscribed s t)"
proof (cases "listeners s t")
  case None
  then show ?thesis by (simp add: notifyListeners_def subscribed_def)
next
  case (Some a)
  then have h: "holds_array s t a" using assms(1) by (simp add: holds_array_def)
  have xs: "arrays s a = arrays s a @ []" by simp
  have "\<forall>h \<in> set (arrays s a). no_unsubscribe t (fst (beh h d))"
    using assms(2) Some by (simp add: subscribed_def)
  from forEach_from_stable[where s = s and t = t and a = a and xs = "arrays s a" and e = "[]"
      and k = 0 and n = "length (arrays s a)" and beh = beh and d = d] h this
  show ?thesis using Some by (auto simp: notifyListeners_def forEach_def subscribed_def)
qed

subsection \<open>A callback that is not in the array and that nobody subscribes\<close>

lemma run_call_absent:
  assumes "holds_array s t a" "h \<notin> set (arrays s a)" "c \<noteq> CallSubscribe t h"
  shows "h \<notin> set (arrays (run_call c s) a)"
  using assms unfolding holds_array_def
  by (cases c) (auto simp: arrays_subscribe arrays_unsubscribe split: if_splits dest: notin_set_remove1)

lemma fold_run_call_absent:
  assumes "holds_array s t a" "h \<notin> set (arrays s a)" "no_subscribe t h cs"
  shows "h \<notin> set (arrays (fold run_call cs s) a)"
  using assms
proof (induction cs arbitrary: s)
  case Nil
  then show ?case by simp
next
  case (Cons c cs)
  from Cons.prems(3) have c: "c \<noteq> CallSubscribe t h" and cs: "no_subscribe t h cs"
    by (auto simp: no_subscribe_def)
  from Cons.IH[OF run_call_keeps[OF Cons.prems(1)] run_call_absent[OF Cons.prems(1,2) c] cs]
  show ?case by simp
qed

lemma guarded_callback_absent:
  assumes "holds_array s t a" "h \<notin> set (arrays s a)" "no_subscribe t h (fst (beh g d))"
  shows "h \<notin> set (arrays (fst (guarded_callback beh d g s)) a)"
proof -
  let ?s = "s\<lparr>invoked := invoked s @ [(g, d)]\<rparr>"
  have "holds_array ?s t a" "h \<notin> set (arrays ?s a)"
    using assms(1,2) by (simp_all add: holds_array_def registry_ok_def)
  from fold_run_call_absent[OF this assms(3)]
  show ?thesis
    unfolding guarded_callback_def try_catch_def invoke_def console_error_def
    by (auto split: prod.splits completion.splits)
qed

lemma forEach_from_absent:
  assumes "holds_array s t a" "h \<notin> set (arrays s a)"
    and "\<forall>g. g \<noteq> h \<longrightarrow> no_subscribe t h (fst (beh g d))"
  shows "\<exists>s' tr. forEach_from (guarded_callback beh d) a n k s = (s', ReturnUndefined) \<and>
           invoked s' = invoked s @ tr \<and> h \<notin> fst ` set tr"
  using assms
proof (induction n arbitrary: k s)
  case 0
  then show ?case by simp
next
  case (Suc n)
  show ?case
  proof (cases "k < length (arrays s a)")
    case False
    with Suc.IH[OF Suc.prems] show ?thesis by simp
  next
    case True
    let ?g = "arrays s a ! k"
    let ?r = "guarded_callback beh d ?g s"
    have g: "?g \<noteq> h" using True Suc.prems(2) by (metis nth_mem)
    obtain s1 where r: "?r = (s1, ReturnUndefined)"
      using guarded_callback_returns[of beh d ?g s] by (cases ?r) auto
    have inv1: "invoked s1 = invoked s @ [(?g, d)]"
      using guarded_callback_invoked[of beh d ?g s] r by simp
    have keep1: "holds_array s1 t a"
      using guarded_callback_keeps[OF Suc.prems(1), of beh d ?g] r by simp
    have abs1: "h \<notin> set (arrays s1 a)"
      using guarded_callback_absent[OF Suc.prems(1,2), of beh ?g d] g Suc.prems(3) r by simp
    from Suc.IH[OF keep1 abs1 Suc.prems(3), of "Suc k"] obtain s' tr where
      *: "forEach_from (guarded_callback beh d) a n (Suc k) s1 = (s', ReturnUndefined)"
         "invoked s' = invoked s1 @ tr" "h \<notin> fst ` set tr" by blast
    have "invoked s' = invoked s @ ((?g, d) # tr)" using * inv1 by simp
    moreover have "h \<notin> fst ` set ((?g, d) # tr)" using * g by auto
    ultimately show ?thesis using * r True by (simp del: set_simps)
  qed
qed

lemma notifyListeners_absent:
  assumes "registry_ok s" "h \<notin> set (subscribed s t)"
    and "\<forall>g. g \<noteq> h \<longrightarrow> no_subscribe t h (fst (beh g d))"
  shows "h \<notin> set (notified beh t d s)"
proof (cases "listeners s t")
  case None
  then show ?thesis by (simp add: notified_def notifyListeners_def)
next
  case (Some a)
  then have ha: "holds_array s t a" using assms(1) by (simp add: holds_array_def)
  have "h \<notin> set (arrays s a)" using assms(2) Some by (simp add: subscribed_def)
  from forEach_from_absent[where s = s and t = t and a = a and h = h and beh = beh and d = d
      and n = "length (arrays s a)" and k = 0] ha this assms(3)
  show ?thesis using Some
    by (auto simp: notified_def notifyListeners_def forEach_def)
qed

lemma subscribed_unsubscribe:
  "subscribed (unsubscribe t h s) t = remove1 h (subscribed s t)"
  unfolding subscribed_def unsubscribe_def
  by (auto split: option.splits simp: splice1_indexOf indexOf_None remove1_idem)

lemma count_remove1_absent: "count_list xs h \<le> 1 \<Longrightarrow> h \<notin> set (remove1 h xs)"
  by (induction xs) (auto split: if_splits simp: count_list_0_iff)

subsection \<open>What callbacks cannot reach, and the reconnect counter\<close>

lemma connection_of_subscribe: "connection_of (subscribe t h s) = connection_of s"
  unfolding connection_of_def subscribe_def push_def Let_def by (auto split: option.splits)

lemma connection_of_unsubscribe: "connection_of (unsubscribe t h s) = connection_of s"
  unfolding connection_of_def unsubscribe_def by (auto split: option.splits)

lemma connection_of_run_call: "connection_of (run_call c s) = connection_of s"
  by (cases c) (simp_all add: connection_of_subscribe connection_of_unsubscribe)

lemma connection_of_fold_run_call: "connection_of (fold run_call cs s) = connection_of s"
  by (induction cs arbitrary: s) (simp_all add: connection_of_run_call)

lemma connection_of_guarded_callback:
  "connection_of (fst (guarded_callback beh d h s)) = connection_of s"
proof -
  have "connection_of (fold run_call cs (s\<lparr>invoked := i\<rparr>)) = connection_of s" for cs i
    using connection_of_fold_run_call[of cs "s\<lparr>invoked := i\<rparr>"]
    by (simp add: connection_of_def)
  then show ?thesis
    unfolding guarded_callback_def try_catch_def invoke_def console_error_def
    by (auto split: prod.splits completion.splits simp: connection_of_def)
qed

lemma connection_of_forEach_from:
  "connection_of (fst (forEach_from (guarded_callback beh d) a n k s)) = connection_of s"
proof (induction n arbitrary: k s)
  case 0
  show ?case by simp
next
  case (Suc n)
  show ?case
  proof (cases "k < length (arrays s a)")
    case False
    then show ?thesis using Suc.IH by simp
  next
    case True
    let ?r = "guarded_callback beh d (arrays s a ! k) s"
    obtain s1 where r: "?r = (s1, ReturnUndefined)"
      using guarded_callback_returns[of beh d "arrays s a ! k" s] by (cases ?r) auto
    have "connection_of s1 = connection_of s"
      using connection_of_guarded_callback[of beh d "arrays s a ! k" s] r by simp
    then show ?thesis using Suc.IH[of "Suc k" s1] True r by simp
  qed
qed

lemma connection_of_notifyListeners:
  "connection_of (fst (notifyListeners beh t d s)) = connection_of s"
  unfolding notifyListeners_def forEach_def
  by (auto split: option.splits simp: connection_of_forEach_from)

lemma notifyListeners_result:
  "notifyListeners beh t d s = (fst (notifyListeners beh t d s), ReturnUndefined)"
  using notifyListeners_returns[of beh t d s] by (cases "notifyListeners beh t d s") simp

lemma connection_of_notifyListeners_key:
  "connection_of (fst (notifyListeners_key beh key d s)) = connection_of s"
  unfolding notifyListeners_key_def
  by (auto split: option.splits json.splits simp: connection_of_notifyListeners)

lemma notifyListeners_key_returns:
  "snd (notifyListeners_key beh key d s) = ReturnUndefined"
  unfolding notifyListeners_key_def
  by (auto split: option.splits json.splits simp: notifyListeners_returns)

lemma connection_of_console_error: "connection_of (console_error m s) = connection_of s"
  by (simp add: connection_of_def console_error_def)

lemma notifyListeners_key_result:
  "notifyListeners_key beh key d s = (fst (notifyListeners_key beh key d s), ReturnUndefined)"
  using notifyListeners_key_returns[of beh key d s]
  by (cases "notifyListeners_key beh key d s") simp

lemma onmessage_result:
  "\<exists>s'. onmessage P beh frame s = (s', ReturnUndefined) \<and> connection_of s' = connection_of s"
proof (cases "P frame")
  case None
  then show ?thesis
    by (simp add: onmessage_def try_catch_def parse_and_notify_def connection_of_console_error)
next
  case (Some d)
  show ?thesis
  proof (cases "get_type d")
    case (Inl e)
    with Some show ?thesis
      by (simp add: onmessage_def try_catch_def parse_and_notify_def connection_of_console_error)
  next
    case (Inr key)
    have "parse_and_notify P beh frame s =
            (fst (notifyListeners_key beh key d s), ReturnUndefined)"
      using Some Inr notifyListeners_key_result[of beh key d s]
      by (simp add: parse_and_notify_def)
    then show ?thesis
      by (simp add: onmessage_def try_catch_def connection_of_notifyListeners_key)
  qed
qed

lemma onclose_result:
  "\<exists>s'. onclose beh s = (s', ReturnUndefined) \<and>
     maxReconnectAttempts s' = maxReconnectAttempts s \<and>
     reconnectDelay s' = reconnectDelay s \<and>
     reconnectAttempts s' =
       (if reconnectAttempts s < maxReconnectAttempts s then Suc (reconnectAttempts s)
        else reconnectAttempts s) \<and>
     timeouts s' = timeouts s @
       (if reconnectAttempts s < maxReconnectAttempts s then [reconnectDelay s] else [])"
proof -
  let ?s0 = "console_log ''WebSocket disconnected'' s"
  let ?d = "JObj [(''status'', JStr ''disconnected'')]"
  let ?s1 = "fst (notifyListeners beh ''connection'' ?d ?s0)"
  have c: "connection_of ?s1 = connection_of s"
    using connection_of_notifyListeners[of beh "''connection''" ?d ?s0]
    by (simp add: connection_of_def console_log_def)
  have "onclose beh s = (attemptReconnect ?s1, ReturnUndefined)"
    unfolding onclose_def
    by (subst notifyListeners_result) (simp add: andThen_def)
  then show ?thesis using c
    by (auto simp: attemptReconnect_def setTimeout_connect_def console_error_def
        connection_of_def Let_def)
qed

lemma deliver_other_result:
  assumes "\<not> is_open e" "\<not> is_close e"
  shows "\<exists>s'. deliver P beh u e s = (s', ReturnUndefined) \<and>
     maxReconnectAttempts s' = maxReconnectAttempts s \<and>
     reconnectDelay s' = reconnectDelay s \<and>
     reconnectAttempts s' = reconnectAttempts s \<and> timeouts s' = timeouts s"
proof (cases e)
  case (SocketOpen r)
  then show ?thesis using assms by simp
next
  case (SocketMessage r frame)
  from onmessage_result[of P beh frame s] obtain s' where
    "onmessage P beh frame s = (s', ReturnUndefined)" "connection_of s' = connection_of s"
    by blast
  then show ?thesis using SocketMessage by (simp add: connection_of_def)
next
  case (SocketError r err)
  let ?s0 = "console_error ''WebSocket error:'' s"
  have "connection_of (fst (onerror beh err s)) = connection_of s"
    unfolding onerror_def
    using connection_of_notifyListeners[of beh "''error''" "JObj [(''error'', err)]" ?s0]
    by (simp add: connection_of_def console_error_def)
  moreover have "snd (onerror beh err s) = ReturnUndefined"
    unfolding onerror_def by (rule notifyListeners_returns)
  ultimately show ?thesis using SocketError
    by (cases "onerror beh err s") (auto simp: connection_of_def)
next
  case (SocketClose r)
  then show ?thesis using assms by simp
next
  case TimerFires
  then show ?thesis
    by (auto simp: connect_def try_catch_def new_WebSocket_def console_error_def)
qed

lemma run_no_open:
  assumes "\<forall>e \<in> set es. \<not> is_open e"
  shows "\<exists>s'. run P beh u es s = (s', ReturnUndefined) \<and>
     maxReconnectAttempts s' = maxReconnectAttempts s \<and>
     reconnectDelay s' = reconnectDelay s \<and>
     reconnectAttempts s' = reconnectAttempts s +
       min (length (filter is_close es)) (maxReconnectAttempts s - reconnectAttempts s) \<and>
     timeouts s' = timeouts s @
       replicate (min (length (filter is_close es)) (maxReconnectAttempts s - reconnectAttempts s))
         (reconnectDelay s)"
  using assms
proof (induction es arbitrary: s)
  case Nil
  show ?case by simp
next
  case (Cons e es)
  from Cons.prems have e: "\<not> is_open e" and es: "\<forall>e \<in> set es. \<not> is_open e" by simp_all
  show ?case
  proof (cases "is_close e")
    case True
    then obtain r where er: "e = SocketClose r" by (cases e) auto
    let ?s0 = "s\<lparr>sockets := (sockets s)(r := CLOSED)\<rparr>"
    from onclose_result[of beh ?s0] obtain s1 where
      s1: "onclose beh ?s0 = (s1, ReturnUndefined)"
        "maxReconnectAttempts s1 = maxReconnectAttempts s"
        "reconnectDelay s1 = reconnectDelay s"
        "reconnectAttempts s1 =
          (if reconnectAttempts s < maxReconnectAttempts s then Suc (reconnectAttempts s)
           else reconnectAttempts s)"
        "timeouts s1 = timeouts s @
          (if reconnectAttempts s < maxReconnectAttempts s then [reconnectDelay s] else [])"
      by auto
    from Cons.IH[OF es, of s1] obtain s' where
      s': "run P beh u es s1 = (s', ReturnUndefined)"
        "maxReconnectAttempts s' = maxReconnectAttempts s1"
        "reconnectDelay s' = reconnectDelay s1"
        "reconnectAttempts s' = reconnectAttempts s1 +
           min (length (filter is_close es)) (maxReconnectAttempts s1 - reconnectAttempts s1)"
        "timeouts s' = timeouts s1 @
           replicate (min (length (filter is_close es))
             (maxReconnectAttempts s1 - reconnectAttempts s1)) (reconnectDelay s1)"
      by blast
    have run: "run P beh u (e # es) s = (s', ReturnUndefined)"
      using er s1(1) s'(1) by (simp add: andThen_def)
    show ?thesis
    proof (cases "reconnectAttempts s < maxReconnectAttempts s")
      case lt: True
      then have m: "min (Suc (length (filter is_close es)))
                      (maxReconnectAttempts s - reconnectAttempts s) =
                    Suc (min (length (filter is_close es))
                      (maxReconnectAttempts s - Suc (reconnectAttempts s)))"
        by arith
      show ?thesis using run s1 s' lt True by (simp add: m)
    next
      case ge: False
      then show ?thesis using run s1 s' True by simp
    qed
  next
    case False
    from deliver_other_result[OF e False, of P beh u s] obtain s1 where
      s1: "deliver P beh u e s = (s1, ReturnUndefined)"
        "maxReconnectAttempts s1 = maxReconnectAttempts s"
        "reconnectDelay s1 = reconnectDelay s"
        "reconnectAttempts s1 = reconnectAttempts s" "timeouts s1 = timeouts s"
      by blast
    from Cons.IH[OF es, of s1] s1 False show ?thesis
      by (auto simp: andThen_def)
  qed
qed

subsection \<open>The event handlers do not read the console\<close>

lemma console_blindI:
  assumes "\<And>s c. \<exists>c'. fst (H (s\<lparr>console := c\<rparr>)) = (fst (H s))\<lparr>console := c'\<rparr>"
    and "\<And>s c. snd (H (s\<lparr>console := c\<rparr>)) = snd (H s)"
  shows "console_blind H"
  unfolding console_blind_def
proof (intro allI)
  fix s c
  from assms(1)[where s = s and c = c] obtain c' where "fst (H (s\<lparr>console := c\<rparr>)) = (fst (H s))\<lparr>console := c'\<rparr>"
    by blast
  with assms(2)[where s = s and c = c] have "H (s\<lparr>console := c\<rparr>) = ((fst (H s))\<lparr>console := c'\<rparr>, snd (H s))"
    by (cases "H (s\<lparr>console := c\<rparr>)") simp
  then show "\<exists>c'. H (s\<lparr>console := c\<rparr>) = ((fst (H s))\<lparr>console := c'\<rparr>, snd (H s))" by blast
qed

lemma console_blindD:
  "console_blind H \<Longrightarrow> \<exists>c'. H (s\<lparr>console := c\<rparr>) = ((fst (H s))\<lparr>console := c'\<rparr>, snd (H s))"
  unfolding console_blind_def by blast

lemma console_blind_notifyListeners: "console_blind (notifyListeners beh t d)"
proof (rule console_blindI)
  fix s c
  let ?X = "fst (notifyListeners (never_throws beh) t d s)"
  from notifyListeners_console[where beh = beh and t = t and d = d and s = s and c = c]
  obtain c1 where c1: "fst (notifyListeners beh t d (s\<lparr>console := c\<rparr>)) = ?X\<lparr>console := c1\<rparr>"
    by blast
  from notifyListeners_console[where beh = beh and t = t and d = d and s = s and c = "console s"]
  obtain c2 where c2: "fst (notifyListeners beh t d s) = ?X\<lparr>console := c2\<rparr>"
    by auto
  have "fst (notifyListeners beh t d (s\<lparr>console := c\<rparr>)) =
        (fst (notifyListeners beh t d s))\<lparr>console := c1\<rparr>"
    by (simp add: c1 c2)
  then show "\<exists>c'. fst (notifyListeners beh t d (s\<lparr>console := c\<rparr>)) =
        (fst (notifyListeners beh t d s))\<lparr>console := c'\<rparr>" by blast
next
  fix s c
  show "snd (notifyListeners beh t d (s\<lparr>console := c\<rparr>)) = snd (notifyListeners beh t d s)"
    by (simp add: notifyListeners_returns)
qed

lemma console_blind_notifyListeners_key: "console_blind (notifyListeners_key beh key d)"
proof -
  have "notifyListeners_key beh key d = notifyListeners beh t d \<or>
        notifyListeners_key beh key d = (\<lambda>s. (s, ReturnUndefined))" if "key = Some (JStr t)" for t
    using that by (auto simp: notifyListeners_key_def fun_eq_iff)
  moreover have "notifyListeners_key beh key d = (\<lambda>s. (s, ReturnUndefined))"
    if "\<forall>t. key \<noteq> Some (JStr t)"
    using that by (auto simp: notifyListeners_key_def fun_eq_iff split: option.splits json.splits)
  moreover have "console_blind (\<lambda>s. (s, ReturnUndefined))"
    by (auto simp: console_blind_def)
  ultimately show ?thesis
    using console_blind_notifyListeners[of beh _ d] by metis
qed

lemma console_blind_onmessage: "console_blind (onmessage P beh frame)"
proof (cases "P frame")
  case None
  then have "onmessage P beh frame =
     (\<lambda>s. (console_error ''Error parsing WebSocket message:'' s, ReturnUndefined))"
    by (simp add: onmessage_def try_catch_def parse_and_notify_def fun_eq_iff)
  then show ?thesis by (auto simp: console_blind_def console_error_def)
next
  case (Some d)
  show ?thesis
  proof (cases "get_type d")
    case (Inl e)
    with Some have "onmessage P beh frame =
       (\<lambda>s. (console_error ''Error parsing WebSocket message:'' s, ReturnUndefined))"
      by (simp add: onmessage_def try_catch_def parse_and_notify_def fun_eq_iff)
    then show ?thesis by (auto simp: console_blind_def console_error_def)
  next
    case (Inr key)
    have "onmessage P beh frame s = notifyListeners_key beh key d s" for s
      using Some Inr notifyListeners_key_returns[of beh key d s]
      by (cases "notifyListeners_key beh key d s")
        (simp add: onmessage_def try_catch_def parse_and_notify_def)
    then have "onmessage P beh frame = notifyListeners_key beh key d" by (simp add: fun_eq_iff)
    then show ?thesis by (simp add: console_blind_notifyListeners_key)
  qed
qed

lemma console_blind_onerror: "console_blind (onerror beh err)"
proof (rule console_blindI)
  fix s c
  let ?H = "notifyListeners beh ''error'' (JObj [(''error'', err)])"
  have e: "console_error m (s\<lparr>console := c\<rparr>) = s\<lparr>console := c @ [ConsoleError m]\<rparr>" for m
    by (simp add: console_error_def)
  have e2: "console_error m s = s\<lparr>console := console s @ [ConsoleError m]\<rparr>" for m
    by (simp add: console_error_def)
  from console_blindD[OF console_blind_notifyListeners, where s = s]
  obtain c1 where c1: "?H (s\<lparr>console := c @ [ConsoleError ''WebSocket error:'']\<rparr>) =
      ((fst (?H s))\<lparr>console := c1\<rparr>, snd (?H s))" by blast
  from console_blindD[OF console_blind_notifyListeners, where s = s]
  obtain c2 where c2: "?H (s\<lparr>console := console s @ [ConsoleError ''WebSocket error:'']\<rparr>) =
      ((fst (?H s))\<lparr>console := c2\<rparr>, snd (?H s))" by blast
  show "\<exists>c'. fst (onerror beh err (s\<lparr>console := c\<rparr>)) = (fst (onerror beh err s))\<lparr>console := c'\<rparr>"
    unfolding onerror_def e e2 c1 c2 by auto
  show "snd (onerror beh err (s\<lparr>console := c\<rparr>)) = snd (onerror beh err s)"
    unfolding onerror_def by (simp add: notifyListeners_returns)
qed

lemma console_blind_after:
  assumes "console_blind H"
    and "\<And>s c. pre (s\<lparr>console := c\<rparr>) = (pre s)\<lparr>console := g s c\<rparr>"
  shows "console_blind (\<lambda>s. H (pre s))"
proof (rule console_blindI)
  fix s c
  define c1 where "c1 = g s c"
  have c1: "pre (s\<lparr>console := c\<rparr>) = (pre s)\<lparr>console := c1\<rparr>"
    using assms(2)[where s = s and c = c] by (simp add: c1_def)
  from console_blindD[OF assms(1), where s = "pre s" and c = c1] obtain c2
    where c2: "H ((pre s)\<lparr>console := c1\<rparr>) = ((fst (H (pre s)))\<lparr>console := c2\<rparr>, snd (H (pre s)))"
    by blast
  show "\<exists>c'. fst (H (pre (s\<lparr>console := c\<rparr>))) = (fst (H (pre s)))\<lparr>console := c'\<rparr>"
    using c1 c2 by auto
  show "snd (H (pre (s\<lparr>console := c\<rparr>))) = snd (H (pre s))"
    using c1 c2 by auto
qed

lemma console_blind_then:
  assumes "console_blind H"
    and "\<And>s c. post (s\<lparr>console := c\<rparr>) = (post s)\<lparr>console := g s c\<rparr>"
  shows "console_blind (\<lambda>s. andThen (H s) (\<lambda>s. (post s, ReturnUndefined)))"
proof (rule console_blindI)
  fix s c
  from console_blindD[OF assms(1), where s = s and c = c] obtain c1
    where c1: "H (s\<lparr>console := c\<rparr>) = ((fst (H s))\<lparr>console := c1\<rparr>, snd (H s))" by blast
  define c2 where "c2 = g (fst (H s)) c1"
  have c2: "post ((fst (H s))\<lparr>console := c1\<rparr>) = (post (fst (H s)))\<lparr>console := c2\<rparr>"
    using assms(2)[where s = "fst (H s)" and c = c1] by (simp add: c2_def)
  show "\<exists>c'. fst (andThen (H (s\<lparr>console := c\<rparr>)) (\<lambda>s. (post s, ReturnUndefined))) =
          (fst (andThen (H s) (\<lambda>s. (post s, ReturnUndefined))))\<lparr>console := c'\<rparr>"
    using c1 c2 by (cases "H s") (auto simp: andThen_def split: completion.splits)
  show "snd (andThen (H (s\<lparr>console := c\<rparr>)) (\<lambda>s. (post s, ReturnUndefined))) =
          snd (andThen (H s) (\<lambda>s. (post s, ReturnUndefined)))"
    using c1 by (cases "H s") (auto simp: andThen_def split: completion.splits)
qed

lemma console_blind_onopen: "console_blind (onopen beh)"
proof -
  have "console_blind (\<lambda>s. notifyListeners beh ''connection'' (JObj [(''status'', JStr ''connected'')])
          ((console_log ''WebSocket connected'' s)\<lparr>reconnectAttempts := 0\<rparr>))"
    by (rule console_blind_after[OF console_blind_notifyListeners,
          where g = "\<lambda>s c. c @ [ConsoleLog ''WebSocket connected'']"])
      (simp add: console_log_def)
  then show ?thesis by (simp add: onopen_def[abs_def])
qed

lemma attemptReconnect_console:
  "attemptReconnect (s\<lparr>console := c\<rparr>) =
     (attemptReconnect s)\<lparr>console :=
        (if reconnectAttempts s < maxReconnectAttempts s
         then c @ [ConsoleLogNum ''Reconnecting... Attempt '' (Suc (reconnectAttempts s))]
         else c @ [ConsoleError ''Max reconnection attempts reached''])\<rparr>"
  by (simp add: attemptReconnect_def setTimeout_connect_def console_error_def Let_def)

lemma console_blind_onclose: "console_blind (onclose beh)"
proof -
  let ?H = "\<lambda>s. notifyListeners beh ''connection'' (JObj [(''status'', JStr ''disconnected'')])
          (console_log ''WebSocket disconnected'' s)"
  have "console_blind ?H"
    by (rule console_blind_after[OF console_blind_notifyListeners,
          where g = "\<lambda>s c. c @ [ConsoleLog ''WebSocket disconnected'']"])
      (simp add: console_log_def)
  from console_blind_then[OF this attemptReconnect_console]
  show ?thesis by (simp add: onclose_def[abs_def])
qed

lemma connect_console:
  "connect u (s\<lparr>console := c\<rparr>) =
     ((fst (connect u s))\<lparr>console :=
         (if u then c else c @ [ConsoleError ''Failed to connect WebSocket:''])\<rparr>,
      snd (connect u s))"
  by (simp add: connect_def try_catch_def new_WebSocket_def console_error_def)

lemma console_blind_connect: "console_blind (connect u)"
  unfolding console_blind_def using connect_console by blast

lemma console_blind_deliver: "console_blind (deliver P beh u e)"
proof (cases e)
  case (SocketOpen r)
  have "console_blind (\<lambda>s. onopen beh (s\<lparr>sockets := (sockets s)(r := OPEN)\<rparr>))"
    by (rule console_blind_after[OF console_blind_onopen, where g = "\<lambda>s c. c"]) simp
  then show ?thesis using SocketOpen by (simp add: fun_eq_iff console_blind_def)
next
  case (SocketMessage r frame)
  then show ?thesis using console_blind_onmessage[of P beh frame]
    by (simp add: console_blind_def)
next
  case (SocketError r err)
  then show ?thesis using console_blind_onerror[of beh err]
    by (simp add: console_blind_def)
next
  case (SocketClose r)
  have "console_blind (\<lambda>s. onclose beh (s\<lparr>sockets := (sockets s)(r := CLOSED)\<rparr>))"
    by (rule console_blind_after[OF console_blind_onclose, where g = "\<lambda>s c. c"]) simp
  then show ?thesis using SocketClose by (simp add: fun_eq_iff console_blind_def)
next
  case TimerFires
  have "console_blind (\<lambda>s. connect u (s\<lparr>fired := Suc (fired s)\<rparr>))"
    by (rule console_blind_after[OF console_blind_connect, where g = "\<lambda>s c. c"]) simp
  then show ?thesis using TimerFires by (auto simp: console_blind_def)
qed

lemma deliver_returns: "snd (deliver P beh u e s) = ReturnUndefined"
proof (cases e)
  case (SocketOpen r)
  then show ?thesis by (simp add: onopen_def notifyListeners_returns)
next
  case (SocketMessage r frame)
  then show ?thesis using onmessage_result[of P beh frame s] by auto
next
  case (SocketError r err)
  then show ?thesis by (simp add: onerror_def notifyListeners_returns)
next
  case (SocketClose r)
  then show ?thesis using onclose_result[of beh "s\<lparr>sockets := (sockets s)(r := CLOSED)\<rparr>"] by auto
next
  case TimerFires
  then show ?thesis
    by (auto simp: connect_def try_catch_def new_WebSocket_def)
qed

lemma run_returns: "snd (run P beh u es s) = ReturnUndefined"
proof (induction es arbitrary: s)
  case Nil
  show ?case by simp
next
  case (Cons e es)
  show ?case using deliver_returns[of P beh u e s] Cons.IH
    by (cases "deliver P beh u e s") (simp add: andThen_def)
qed

lemma run_console:
  "\<exists>c'. fst (run P beh u es (s\<lparr>console := c\<rparr>)) = (fst (run P beh u es s))\<lparr>console := c'\<rparr>"
proof (induction es arbitrary: s c)
  case Nil
  show ?case by auto
next
  case (Cons e es)
  from console_blindD[OF console_blind_deliver, where s = s and c = c] obtain c1 where
    c1: "deliver P beh u e (s\<lparr>console := c\<rparr>) =
          ((fst (deliver P beh u e s))\<lparr>console := c1\<rparr>, snd (deliver P beh u e s))" by blast
  have r: "snd (deliver P beh u e s) = ReturnUndefined" by (rule deliver_returns)
  from Cons.IH[where s = "fst (deliver P beh u e s)" and c = c1] obtain c2 where
    "fst (run P beh u es ((fst (deliver P beh u e s))\<lparr>console := c1\<rparr>)) =
       (fst (run P beh u es (fst (deliver P beh u e s))))\<lparr>console := c2\<rparr>" by blast
  then show ?case using c1 r
    by (cases "deliver P beh u e s") (auto simp: andThen_def)
qed

subsection \<open>The alert list\<close>

lemma length_alert_step:
  assumes "length (alerts st) \<le> 5"
  shows "length (alerts (alert_step e st)) \<le> 5"
proof (cases e)
  case (Handle now date data)
  then show ?thesis using assms by (simp add: handleAlert_def)
next
  case (Dismiss i)
  then show ?thesis using assms le_trans[OF length_filter_le assms]
    by (simp add: removeAlert_def)
next
  case Expire
  then show ?thesis using assms le_trans[OF length_filter_le assms]
    by (simp add: timer_fires_def split: list.splits)
qed

lemma length_alert_run: "length (alerts st) \<le> 5 \<Longrightarrow> length (alerts (alert_run evs st)) \<le> 5"
  unfolding alert_run_def
  by (induction evs arbitrary: st) (simp_all add: length_alert_step)

lemma subseq_take: "subseq (take n xs) xs"
  by (metis append_take_drop_id list_emb_append_mono list_emb_Nil subseq_order.order_refl append_Nil2)

lemma subseq_alert_step:
  "subseq (alerts (alert_step e st)) (constructed [e] @ alerts st)"
proof (cases e)
  case (Handle now date data)
  then show ?thesis
    by (auto simp: handleAlert_def alert_class_def subseq_take simp del: take_Suc_Cons)
next
  case (Dismiss i)
  then show ?thesis by (simp add: removeAlert_def)
next
  case Expire
  then show ?thesis by (auto simp: timer_fires_def split: list.splits)
qed

lemma constructed_Cons: "constructed (e # evs) = constructed [e] @ constructed evs"
  by (cases e) auto

lemma subseq_alert_run:
  "subseq (alerts (alert_run evs st)) (rev (constructed evs) @ alerts st)"
proof (induction evs arbitrary: st)
  case Nil
  show ?case by (simp add: alert_run_def)
next
  case (Cons e evs)
  have "subseq (alerts (alert_run evs (alert_step e st)))
          (rev (constructed evs) @ alerts (alert_step e st))"
    using Cons.IH by simp
  also have "subseq \<dots> (rev (constructed evs) @ constructed [e] @ alerts st)"
    using subseq_alert_step[of e st] by (simp add: list_emb_append_mono)
  also have "\<dots> = rev (constructed (e # evs)) @ alerts st"
  proof -
    have "rev (constructed [e]) = constructed [e]" by (cases e) auto
    then show ?thesis by (subst (2) constructed_Cons) simp
  qed
  finally show ?case by (simp add: alert_run_def)
qed

lemma take_append_take: "take n (xs @ take n ys) = take n (xs @ ys)"
  by (simp add: min_def)

lemma alerts_only_run:
  assumes "\<forall>e \<in> set evs. is_alert e" "length (alerts st) \<le> 5"
  shows "alerts (alert_run evs st) = take 5 (rev (constructed evs) @ alerts st)"
  using assms
proof (induction evs arbitrary: st)
  case Nil
  then show ?case by (simp add: alert_run_def)
next
  case (Cons e evs)
  from Cons.prems(1) obtain now date data where
    e: "e = Handle now date data" and ac: "alert_class data"
    by (cases e) auto
  let ?a = "newAlert now date data"
  have st1: "alerts (alert_step e st) = take 5 (?a # alerts st)"
    using e ac by (simp add: handleAlert_def alert_class_def)
  then have len: "length (alerts (alert_step e st)) \<le> 5" by simp
  from Cons.prems(1) have "\<forall>e \<in> set evs. is_alert e" by simp
  from Cons.IH[OF this len]
  have "alerts (alert_run evs (alert_step e st)) =
          take 5 (rev (constructed evs) @ take 5 (?a # alerts st))"
    by (simp only: st1)
  also have "\<dots> = take 5 (rev (constructed evs) @ ?a # alerts st)"
    by (rule take_append_take)
  finally show ?case using e ac by (simp add: alert_run_def)
qed

subsection \<open>The dashboard\<close>

text \<open>Called through a closure that holds no snapshot, \<open>updateStockData\<close> changes nothing.\<close>

lemma updateStockData_not_loaded: "updateStockData None updatedStock prev = Inr prev"
  by (simp add: updateStockData_def)

text \<open>
  Called through a closure that holds a loaded snapshot, \<open>updateStockData\<close> replaces the
  snapshot \<open>prev\<close> by one with the same \<open>summary\<close> and the same number of stocks, in the
  same order, where each stock whose \<open>symbol\<close> is that of \<open>updatedStock\<close> has, for every
  field, the value of \<open>updatedStock\<close> if \<open>updatedStock\<close> has that field and its own value
  otherwise, and every other stock is as it was; when no stock has that symbol, the
  snapshot is as it was. This is the merge that the code is written to do.
\<close>

lemma updateStockData_loaded_closure:
  "\<exists>p. updateStockData (Some dashboardData) updatedStock (Some prev) = Inr (Some p) \<and>
       summary p = summary prev \<and>
       length (stocks p) = length (stocks prev) \<and>
       (\<forall>i < length (stocks prev).
          if (stocks prev ! i) ''symbol'' = updatedStock ''symbol''
          then \<forall>field. (stocks p ! i) field =
                 (case updatedStock field of
                    Some v \<Rightarrow> Some v
                  | None \<Rightarrow> (stocks prev ! i) field)
          else stocks p ! i = stocks prev ! i) \<and>
       ((\<forall>stock \<in> set (stocks prev). stock ''symbol'' \<noteq> updatedStock ''symbol'') \<longrightarrow> p = prev)"
proof -
  let ?p = "prev\<lparr>stocks := map (merge_stock updatedStock) (stocks prev)\<rparr>"
  have 1: "updateStockData (Some dashboardData) updatedStock (Some prev) = Inr (Some ?p)"
    by (simp add: updateStockData_def)
  have 2: "\<forall>i < length (stocks prev).
          if (stocks prev ! i) ''symbol'' = updatedStock ''symbol''
          then \<forall>field. (stocks ?p ! i) field =
                 (case updatedStock field of
                    Some v \<Rightarrow> Some v
                  | None \<Rightarrow> (stocks prev ! i) field)
          else stocks ?p ! i = stocks prev ! i"
    by (auto simp: merge_stock_def map_add_def split: option.splits)
  have 3: "(\<forall>stock \<in> set (stocks prev). stock ''symbol'' \<noteq> updatedStock ''symbol'') \<longrightarrow> ?p = prev"
  proof
    assume "\<forall>stock \<in> set (stocks prev). stock ''symbol'' \<noteq> updatedStock ''symbol''"
    then have "map (merge_stock updatedStock) (stocks prev) = stocks prev"
      by (simp add: merge_stock_def map_idI)
    then show "?p = prev" by simp
  qed
  from 1 2 3 show ?thesis by (intro exI[of _ ?p]) simp
qed

lemma updateStockData_loaded_closure_example:
  "(\<exists>p. updateStockData (Some aapl_snapshot) aapl_update (Some aapl_snapshot) = Inr (Some p) \<and>
        map (\<lambda>stock. (stock ''symbol'', stock ''price'', stock ''volume'')) (stocks p) =
          [(Some (VStr ''AAPL''), Some (VNum 105), Some (VNum 1000)),
           (Some (VStr ''MSFT''), Some (VNum 300), Some (VNum 2000))]) \<and>
   updateStockData (Some aapl_snapshot) zzzz_update (Some aapl_snapshot) = Inr (Some aapl_snapshot)"
proof -
  from updateStockData_loaded_closure[of aapl_snapshot aapl_update aapl_snapshot] obtain p where
    p: "updateStockData (Some aapl_snapshot) aapl_update (Some aapl_snapshot) = Inr (Some p)"
      "length (stocks p) = length (stocks aapl_snapshot)"
      "\<forall>i < length (stocks aapl_snapshot).
          if (stocks aapl_snapshot ! i) ''symbol'' = aapl_update ''symbol''
          then \<forall>field. (stocks p ! i) field =
                 (case aapl_update field of
                    Some v \<Rightarrow> Some v
                  | None \<Rightarrow> (stocks aapl_snapshot ! i) field)
          else stocks p ! i = stocks aapl_snapshot ! i"
    by blast
  have len: "length (stocks p) = 2" using p(2) by (simp add: aapl_snapshot_def)
  from p(3) have i0: "\<forall>field. (stocks p ! 0) field =
                 (case aapl_update field of
                    Some v \<Rightarrow> Some v
                  | None \<Rightarrow> (stocks aapl_snapshot ! 0) field)"
    by (simp add: aapl_snapshot_def aapl_update_def)
  from p(3) have i1: "stocks p ! 1 = stocks aapl_snapshot ! 1"
    by (simp add: aapl_snapshot_def aapl_update_def)
  from len obtain a b where ab: "stocks p = [a, b]"
    by (cases "stocks p"; cases "tl (stocks p)") auto
  have "map (\<lambda>stock. (stock ''symbol'', stock ''price'', stock ''volume'')) (stocks p) =
          [(Some (VStr ''AAPL''), Some (VNum 105), Some (VNum 1000)),
           (Some (VStr ''MSFT''), Some (VNum 300), Some (VNum 2000))]"
    using i0 i1 ab by (simp add: aapl_snapshot_def aapl_update_def)
  moreover
  from updateStockData_loaded_closure[of aapl_snapshot zzzz_update aapl_snapshot]
  have "updateStockData (Some aapl_snapshot) zzzz_update (Some aapl_snapshot) =
          Inr (Some aapl_snapshot)"
    by (auto simp: aapl_snapshot_def zzzz_update_def)
  ultimately show ?thesis using p(1) by simp
qed

subsection \<open>The invariant of the registry is kept\<close>

lemma registry_ok_cong:
  "listeners s' = listeners s \<Longrightarrow> next_array s' = next_array s \<Longrightarrow>
   registry_ok s' = registry_ok s"
  by (simp add: registry_ok_def)

lemma registry_ok_run_call: "registry_ok s \<Longrightarrow> registry_ok (run_call c s)"
  by (cases c) (simp_all add: registry_ok_subscribe registry_ok_unsubscribe)

lemma registry_ok_fold_run_call: "registry_ok s \<Longrightarrow> registry_ok (fold run_call cs s)"
  by (induction cs arbitrary: s) (simp_all add: registry_ok_run_call)

lemma registry_ok_guarded_callback:
  assumes "registry_ok s"
  shows "registry_ok (fst (guarded_callback beh d h s))"
proof -
  have "registry_ok (s\<lparr>invoked := invoked s @ [(h, d)]\<rparr>)"
    using assms by (simp add: registry_ok_def)
  from registry_ok_fold_run_call[OF this, of "fst (beh h d)"]
  show ?thesis
    unfolding guarded_callback_def try_catch_def invoke_def console_error_def
    by (auto split: prod.splits completion.splits simp: registry_ok_def)
qed

lemma registry_ok_forEach_from:
  "registry_ok s \<Longrightarrow> registry_ok (fst (forEach_from (guarded_callback beh d) a n k s))"
proof (induction n arbitrary: k s)
  case 0
  then show ?case by simp
next
  case (Suc n)
  show ?case
  proof (cases "k < length (arrays s a)")
    case False
    then show ?thesis using Suc by simp
  next
    case True
    let ?r = "guarded_callback beh d (arrays s a ! k) s"
    obtain s1 where r: "?r = (s1, ReturnUndefined)"
      using guarded_callback_returns[of beh d "arrays s a ! k" s] by (cases ?r) auto
    have "registry_ok s1"
      using registry_ok_guarded_callback[OF Suc.prems, of beh d "arrays s a ! k"] r by simp
    from Suc.IH[OF this, of "Suc k"] show ?thesis using True r by simp
  qed
qed

lemma registry_ok_notifyListeners:
  "registry_ok s \<Longrightarrow> registry_ok (fst (notifyListeners beh t d s))"
  unfolding notifyListeners_def forEach_def
  by (auto split: option.splits simp: registry_ok_forEach_from)

lemma registry_ok_disconnect: "registry_ok (disconnect s)"
  by (simp add: registry_ok_def disconnect_def Let_def split: option.splits)

lemma registry_ok_deliver:
  assumes "registry_ok s"
  shows "registry_ok (fst (deliver P beh u e s))"
proof (cases e)
  case (SocketOpen r)
  have "registry_ok ((console_log ''WebSocket connected'' (s\<lparr>sockets := (sockets s)(r := OPEN)\<rparr>))
          \<lparr>reconnectAttempts := 0\<rparr>)"
    using assms by (simp add: registry_ok_def console_log_def)
  from registry_ok_notifyListeners[OF this] show ?thesis using SocketOpen
    by (simp add: onopen_def)
next
  case (SocketMessage r frame)
  have k: "registry_ok (fst (notifyListeners_key beh key d s))" for key d
    using registry_ok_notifyListeners[OF assms]
    by (auto simp: notifyListeners_key_def assms split: option.splits json.splits)
  have "registry_ok (fst (onmessage P beh frame s))"
  proof (cases "P frame")
    case None
    then show ?thesis using assms
      by (simp add: onmessage_def try_catch_def parse_and_notify_def console_error_def
          registry_ok_def)
  next
    case (Some d)
    show ?thesis
    proof (cases "get_type d")
      case (Inl x)
      with Some show ?thesis using assms
        by (simp add: onmessage_def try_catch_def parse_and_notify_def console_error_def
            registry_ok_def)
    next
      case (Inr key)
      with Some show ?thesis
        using k[of key d] notifyListeners_key_returns[of beh key d s]
        by (cases "notifyListeners_key beh key d s")
          (simp add: onmessage_def try_catch_def parse_and_notify_def)
    qed
  qed
  then show ?thesis using SocketMessage by simp
next
  case (SocketError r err)
  have "registry_ok (console_error ''WebSocket error:'' s)"
    using assms by (simp add: registry_ok_def console_error_def)
  from registry_ok_notifyListeners[OF this] show ?thesis using SocketError
    by (simp add: onerror_def)
next
  case (SocketClose r)
  let ?s0 = "console_log ''WebSocket disconnected'' (s\<lparr>sockets := (sockets s)(r := CLOSED)\<rparr>)"
  let ?d = "JObj [(''status'', JStr ''disconnected'')]"
  have "registry_ok ?s0"
    using assms by (simp add: registry_ok_def console_log_def)
  from registry_ok_notifyListeners[OF this, of beh "''connection''" ?d]
  have "registry_ok (attemptReconnect (fst (notifyListeners beh ''connection'' ?d ?s0)))"
    by (simp add: registry_ok_def attemptReconnect_def setTimeout_connect_def
        console_error_def Let_def)
  then show ?thesis using SocketClose notifyListeners_returns[of beh "''connection''" ?d ?s0]
    by (cases "notifyListeners beh ''connection'' ?d ?s0") (simp add: onclose_def andThen_def)
next
  case TimerFires
  then show ?thesis using assms
    by (auto simp: connect_def try_catch_def new_WebSocket_def console_error_def registry_ok_def)
qed

lemma registry_ok_run:
  "registry_ok s \<Longrightarrow> registry_ok (fst (run P beh u es s))"
proof (induction es arbitrary: s)
  case Nil
  then show ?case by simp
next
  case (Cons e es)
  from Cons.IH[OF registry_ok_deliver[OF Cons.prems, of P beh u e]]
  show ?case using deliver_returns[of P beh u e s]
    by (cases "deliver P beh u e s") (simp add: andThen_def)
qed

section \<open>The claims\<close>

subsection \<open>C1: the fan-out of notifyListeners\<close>

text \<open>
  C1, as amended. In a state that satisfies the invariant of the registry, if no callback
  subscribed to \<open>eventType\<close> calls \<open>unsubscribe\<close> for \<open>eventType\<close> when it is invoked
  with \<open>d\<close>, then \<open>notifyListeners(eventType, d)\<close> returns normally and invokes exactly
  the callbacks that were subscribed to \<open>eventType\<close> when it started, each once, in
  subscription order, all with \<open>d\<close>. The callbacks may subscribe (also to \<open>eventType\<close>)
  and may throw: a callback subscribed during the pass is not invoked in that pass, since
  \<open>forEach\<close> reads the length once.
\<close>

theorem notifyListeners_in_order:
  assumes "registry_ok s"
    and "\<forall>h \<in> set (subscribed s eventType). no_unsubscribe eventType (fst (beh h d))"
  shows "snd (notifyListeners beh eventType d s) = ReturnUndefined \<and>
         invoked (fst (notifyListeners beh eventType d s)) =
           invoked s @ map (\<lambda>h. (h, d)) (subscribed s eventType)"
  using notifyListeners_stable[where s = s and t = eventType and beh = beh and d = d] assms
    notifyListeners_returns[of beh eventType d s] by simp

text \<open>
  The theorem at two subscribers, the first of which subscribes a third callback to the
  same event type and then throws: the two are invoked, in order, and the third is not.
\<close>

theorem notifyListeners_in_order_witness:
  "subscribed two_listeners ''stock_update'' = [1, 2] \<and>
   invoked (fst (notifyListeners subscribes_and_throws ''stock_update'' JNull two_listeners)) =
     [(1, JNull), (2, JNull)]"
proof -
  have ok: "registry_ok two_listeners"
    unfolding two_listeners_def
    by (intro registry_ok_subscribe registry_ok_constructor)
  have sub: "subscribed two_listeners ''stock_update'' = [1, 2]"
    by (simp add: two_listeners_def service_defs)
  have "\<forall>h \<in> set (subscribed two_listeners ''stock_update'').
          no_unsubscribe ''stock_update'' (fst (subscribes_and_throws h JNull))"
    by (simp add: sub no_unsubscribe_def subscribes_and_throws_def)
  from notifyListeners_in_order[where s = two_listeners and eventType = "''stock_update''"
      and beh = subscribes_and_throws and d = JNull] ok this sub
  have "invoked (fst (notifyListeners subscribes_and_throws ''stock_update'' JNull two_listeners)) =
      invoked two_listeners @ [(1, JNull), (2, JNull)]" by simp
  moreover have "invoked two_listeners = []"
    by (simp add: two_listeners_def invoked_subscribe constructor_def)
  ultimately show ?thesis using sub by simp
qed

text \<open>
  C1 as stated fails: there is no snapshot, \<open>forEach\<close> walks the array that
  \<open>unsubscribe\<close> splices. With callbacks 1 and 2 subscribed, in that order, and each
  removing itself when invoked, the pass invokes 1 only: after the splice callback 2 is at
  index 0, and index 1 is beyond the end of the array.
\<close>

theorem notifyListeners_live_array:
  "subscribed two_listeners ''stock_update'' = [1, 2] \<and>
   notified unsubscribes_itself ''stock_update'' JNull two_listeners = [1]"
  by (simp add: two_listeners_def unsubscribes_itself_def service_defs)

subsection \<open>C5: unsubscribe, then notifyListeners\<close>

text \<open>
  C5, as amended. In every state, \<open>unsubscribe(eventType, h)\<close> removes the first entry of
  \<open>h\<close> for \<open>eventType\<close> and no other entry. In a state that satisfies the invariant of
  the registry, if \<open>h\<close> has at most one entry for \<open>eventType\<close> and no other callback
  subscribes \<open>h\<close> to \<open>eventType\<close> when invoked with \<open>d\<close>, then
  \<open>unsubscribe(eventType, h)\<close> followed by \<open>notifyListeners(eventType, d)\<close> does not
  invoke \<open>h\<close>.
\<close>

theorem unsubscribe_then_notify:
  "subscribed (unsubscribe eventType h s) eventType = remove1 h (subscribed s eventType) \<and>
   (registry_ok s \<and> count_list (subscribed s eventType) h \<le> 1 \<and>
    (\<forall>g. g \<noteq> h \<longrightarrow> no_subscribe eventType h (fst (beh g d))) \<longrightarrow>
      h \<notin> set (notified beh eventType d (unsubscribe eventType h s)))"
proof (intro conjI impI)
  show 1: "subscribed (unsubscribe eventType h s) eventType = remove1 h (subscribed s eventType)"
    by (rule subscribed_unsubscribe)
  assume a: "registry_ok s \<and> count_list (subscribed s eventType) h \<le> 1 \<and>
    (\<forall>g. g \<noteq> h \<longrightarrow> no_subscribe eventType h (fst (beh g d)))"
  then have c: "count_list (subscribed s eventType) h \<le> 1" by simp
  have "h \<notin> set (subscribed (unsubscribe eventType h s) eventType)"
    using count_remove1_absent[OF c] 1 by simp
  with notifyListeners_absent[where s = "unsubscribe eventType h s" and t = eventType
      and h = h and beh = beh and d = d] registry_ok_unsubscribe[of s eventType h] a
  show "h \<notin> set (notified beh eventType d (unsubscribe eventType h s))" by simp
qed

text \<open>
  The theorem at callback 1 subscribed before and after callback 2: \<open>unsubscribe\<close> removes
  the first entry of 1 and keeps the second, behind 2. And at two subscribers 1 and 2:
  after callback 1 is removed only callback 2 is left, and the pass does not invoke 1.
\<close>

theorem unsubscribe_then_notify_witness:
  "subscribed registered_around ''alert'' = [1, 2, 1] \<and>
   subscribed (unsubscribe ''alert'' 1 registered_around) ''alert'' = [2, 1] \<and>
   subscribed (unsubscribe ''stock_update'' 1 two_listeners) ''stock_update'' = [2] \<and>
   1 \<notin> set (notified quiet ''stock_update'' JNull (unsubscribe ''stock_update'' 1 two_listeners))"
proof -
  have ok: "registry_ok two_listeners"
    unfolding two_listeners_def
    by (intro registry_ok_subscribe registry_ok_constructor)
  have sub: "subscribed two_listeners ''stock_update'' = [1, 2]"
    by (simp add: two_listeners_def service_defs)
  have around: "subscribed registered_around ''alert'' = [1, 2, 1]"
    by (simp add: registered_around_def service_defs)
  have c: "count_list (subscribed two_listeners ''stock_update'') 1 \<le> 1"
    by (simp add: sub)
  have q: "\<forall>g. g \<noteq> 1 \<longrightarrow> no_subscribe ''stock_update'' 1 (fst (quiet g JNull))"
    by (simp add: no_subscribe_def quiet_def)
  from unsubscribe_then_notify[where s = registered_around and eventType = "''alert''"
      and h = 1 and beh = quiet and d = JNull] around
  have 1: "subscribed (unsubscribe ''alert'' 1 registered_around) ''alert'' = [2, 1]"
    by simp
  from unsubscribe_then_notify[where s = two_listeners and eventType = "''stock_update''"
      and h = 1 and beh = quiet and d = JNull] ok c q sub
  have 2: "subscribed (unsubscribe ''stock_update'' 1 two_listeners) ''stock_update'' = [2] \<and>
     1 \<notin> set (notified quiet ''stock_update'' JNull
                  (unsubscribe ''stock_update'' 1 two_listeners))"
    by simp
  from around 1 2 show ?thesis by simp
qed

text \<open>
  C5 as stated fails: after \<open>subscribe('alert', h)\<close> twice, one \<open>unsubscribe('alert', h)\<close>
  leaves one entry, and the next \<open>notifyListeners('alert', d)\<close> invokes \<open>h\<close>.
\<close>

theorem unsubscribe_removes_one_entry:
  "subscribed registered_twice ''alert'' = [1, 1] \<and>
   notified quiet ''alert'' JNull (unsubscribe ''alert'' 1 registered_twice) = [1]"
  by (simp add: registered_twice_def quiet_def service_defs)

subsection \<open>C6: a callback that throws\<close>

text \<open>
  C6. \<open>notifyListeners\<close> never throws, and what the callbacks throw changes nothing but
  the console: the state after the pass (the invocations made, in their order, and the
  registry) is the state after the same pass with callbacks that make the same calls and
  return instead of throwing. So every callback that would run if none threw still runs.
\<close>

theorem notifyListeners_isolates_failures:
  "snd (notifyListeners beh eventType d s) = ReturnUndefined \<and>
   (\<exists>c. fst (notifyListeners beh eventType d s) =
          (fst (notifyListeners (never_throws beh) eventType d s))\<lparr>console := c\<rparr>)"
proof -
  from notifyListeners_console[where beh = beh and t = eventType and d = d and s = s
      and c = "console s"]
  show ?thesis by (simp add: notifyListeners_returns)
qed

text \<open>The theorem at two subscribers, the first of which throws: both are invoked.\<close>

theorem notifyListeners_isolates_failures_witness:
  "snd (notifyListeners subscribes_and_throws ''stock_update'' JNull two_listeners) =
     ReturnUndefined \<and>
   notified subscribes_and_throws ''stock_update'' JNull two_listeners = [1, 2] \<and>
   console (fst (notifyListeners subscribes_and_throws ''stock_update'' JNull two_listeners)) =
     [ConsoleError ''Error in WebSocket listener:'']"
proof -
  from notifyListeners_isolates_failures[of subscribes_and_throws "''stock_update''" JNull
      two_listeners]
  have "snd (notifyListeners subscribes_and_throws ''stock_update'' JNull two_listeners) =
          ReturnUndefined" by blast
  moreover have
    "notified subscribes_and_throws ''stock_update'' JNull two_listeners = [1, 2] \<and>
     console (fst (notifyListeners subscribes_and_throws ''stock_update'' JNull two_listeners)) =
       [ConsoleError ''Error in WebSocket listener:'']"
    by (simp add: two_listeners_def subscribes_and_throws_def service_defs)
  ultimately show ?thesis by simp
qed

subsection \<open>C2: the reconnect attempts\<close>

text \<open>
  C2. A service is made with \<open>maxReconnectAttempts = 5\<close> and \<open>reconnectDelay = 3000\<close>.
  Over any sequence of events in which no socket opens (close and error events of any
  sockets, frames, reconnect timers), whatever the callbacks subscribe, unsubscribe or
  throw, no handler throws, and the timers set are one per close event, each with the
  delay \<open>reconnectDelay\<close>, until \<open>reconnectAttempts\<close> has reached
  \<open>maxReconnectAttempts\<close>; after that a close event sets no timer and the counter
  stays. So at most \<open>maxReconnectAttempts\<close> reconnects are scheduled. (The difference
  of the two counters is 0 when the counter is at or beyond the maximum.)
\<close>

theorem reconnect_attempts_bounded:
  assumes "\<forall>e \<in> set es. \<not> is_open e"
  shows "maxReconnectAttempts constructor = 5 \<and> reconnectDelay constructor = 3000 \<and>
         snd (run JSON_parse beh url_ok es s) = ReturnUndefined \<and>
         timeouts (fst (run JSON_parse beh url_ok es s)) =
           timeouts s @
           replicate (min (length (filter is_close es))
                          (maxReconnectAttempts s - reconnectAttempts s))
             (reconnectDelay s) \<and>
         reconnectAttempts (fst (run JSON_parse beh url_ok es s)) =
           reconnectAttempts s +
           min (length (filter is_close es)) (maxReconnectAttempts s - reconnectAttempts s)"
proof -
  from run_no_open[OF assms, of JSON_parse beh url_ok s]
  show ?thesis by (auto simp: constructor_def)
qed

text \<open>
  The theorem at a new service whose sockets all fail to open: after five failures five
  reconnects have been scheduled, each at 3000 ms, and the sixth failure schedules none.
\<close>

theorem reconnect_attempts_bounded_witness:
  "timeouts (fst (run example_parse quiet True (take 15 six_failures) connecting)) =
     [3000, 3000, 3000, 3000, 3000] \<and>
   timeouts (fst (run example_parse quiet True six_failures connecting)) =
     [3000, 3000, 3000, 3000, 3000] \<and>
   snd (run example_parse quiet True six_failures connecting) = ReturnUndefined"
proof -
  have c: "timeouts connecting = [] \<and> maxReconnectAttempts connecting = 5 \<and>
           reconnectAttempts connecting = 0 \<and> reconnectDelay connecting = 3000"
    by (simp add: connecting_def service_defs)
  have 1: "\<forall>e \<in> set (take 15 six_failures). \<not> is_open e"
    by (simp add: six_failures_def)
  have 2: "\<forall>e \<in> set six_failures. \<not> is_open e"
    by (simp add: six_failures_def)
  have 3: "length (filter is_close (take 15 six_failures)) = 5"
    by (simp add: six_failures_def)
  have 4: "length (filter is_close six_failures) = 6"
    by (simp add: six_failures_def)
  have r5: "replicate 5 (3000::nat) = [3000, 3000, 3000, 3000, 3000]"
    by (simp add: numeral_eq_Suc)
  from reconnect_attempts_bounded[OF 1, of example_parse quiet True connecting]
    reconnect_attempts_bounded[OF 2, of example_parse quiet True connecting]
  show ?thesis
    by (simp add: c 3 4 r5)
qed

subsection \<open>C3: disconnect\<close>

text \<open>
  C3, as amended. \<open>disconnect()\<close> calls \<open>close()\<close> on the socket it holds, if any, and drops
  it, and clears the registry, so that \<open>notifyListeners\<close> then invokes no callback, and a
  callback subscribed afterwards is invoked again; a second \<open>disconnect()\<close> changes
  nothing. It leaves \<open>reconnectAttempts\<close> as it is (only \<open>onopen\<close> resets it) and leaves
  the timers that \<open>attemptReconnect\<close> has set pending.
\<close>

theorem disconnect_clears_registry:
  "ws (disconnect s) = None \<and>
   listeners (disconnect s) = Map.empty \<and>
   sockets (disconnect s) = (case ws s of None \<Rightarrow> sockets s | Some r \<Rightarrow> sockets (close r s)) \<and>
   disconnect (disconnect s) = disconnect s \<and>
   notifyListeners beh eventType d (disconnect s) = (disconnect s, ReturnUndefined) \<and>
   notified beh eventType d (subscribe eventType h (disconnect s)) = [h] \<and>
   reconnectAttempts (disconnect s) = reconnectAttempts s \<and>
   timeouts (disconnect s) = timeouts s \<and>
   fired (disconnect s) = fired s"
proof -
  let ?s = "subscribe eventType h (disconnect s)"
  let ?a = "next_array (disconnect s)"
  have l: "listeners ?s eventType = Some ?a" and a: "arrays ?s ?a = [h]"
    by (simp_all add: subscribe_def push_def disconnect_def Let_def split: option.splits)
  obtain s1 where r: "guarded_callback beh d h ?s = (s1, ReturnUndefined)"
    using guarded_callback_returns[of beh d h ?s] by (cases "guarded_callback beh d h ?s") auto
  have "invoked s1 = invoked ?s @ [(h, d)]"
    using guarded_callback_invoked[of beh d h ?s] r by simp
  then have "notified beh eventType d ?s = [h]"
    using l a r by (simp add: notified_def notifyListeners_def forEach_def)
  then show ?thesis
    by (simp add: disconnect_def close_def notifyListeners_def Let_def split: option.splits)
qed

text \<open>The theorem at the service whose socket is open.\<close>

theorem disconnect_clears_registry_witness:
  "ws (disconnect connected) = None \<and>
   sockets (disconnect connected) 0 = CLOSING \<and>
   disconnect (disconnect connected) = disconnect connected \<and>
   notified quiet ''alert'' JNull (disconnect listening) = [] \<and>
   notified quiet ''alert'' JNull (subscribe ''alert'' 7 (disconnect listening)) = [7]"
proof -
  have c: "ws connected = Some 0 \<and> sockets connected 0 = OPEN"
    by (simp add: connected_def connecting_def quiet_def service_defs)
  from disconnect_clears_registry[of connected quiet "''alert''" JNull 7]
    disconnect_clears_registry[of listening quiet "''alert''" JNull 7] c
  show ?thesis by (simp add: notified_def close_def)
qed

text \<open>
  C3 as stated fails on the counter and on the pending reconnect. After the first socket
  failed to open, \<open>reconnectAttempts\<close> is 1 and one reconnect timer is pending;
  \<open>disconnect()\<close> leaves the counter at 1 and the timer pending, and when the timer fires
  the service connects again: it holds the new socket 1.
\<close>

theorem disconnect_keeps_counter_and_timer:
  "reconnectAttempts after_one_failure = 1 \<and>
   reconnectAttempts (disconnect after_one_failure) = 1 \<and>
   fired (disconnect after_one_failure) = 0 \<and>
   timeouts (disconnect after_one_failure) = [3000] \<and>
   ws (disconnect after_one_failure) = None \<and>
   ws (fst (deliver example_parse quiet True TimerFires (disconnect after_one_failure))) = Some 1"
  by (simp add: after_one_failure_def connecting_def quiet_def service_defs)

subsection \<open>C7: a frame that does not decode\<close>

text \<open>
  C7. When \<open>JSON.parse\<close> throws on a frame, \<open>onmessage\<close> logs one line and does nothing
  else: the state is the same but for the console (no callback is invoked, the socket and
  the registry are as before), and it returns normally. Whatever events follow (frames
  among them) are handled as if the frame had not come: the run ends in the same state,
  but for the console, and no handler throws.
\<close>

theorem malformed_frame_dropped:
  assumes "JSON_parse frame = None"
  shows "onmessage JSON_parse beh frame s =
           (console_error ''Error parsing WebSocket message:'' s, ReturnUndefined) \<and>
         snd (run JSON_parse beh url_ok (SocketMessage r frame # es) s) = ReturnUndefined \<and>
         (\<exists>c. fst (run JSON_parse beh url_ok (SocketMessage r frame # es) s) =
                (fst (run JSON_parse beh url_ok es s))\<lparr>console := c\<rparr>)"
proof -
  have 1: "onmessage JSON_parse beh frame s =
           (console_error ''Error parsing WebSocket message:'' s, ReturnUndefined)"
    using assms by (simp add: onmessage_def try_catch_def parse_and_notify_def)
  have "run JSON_parse beh url_ok (SocketMessage r frame # es) s =
        run JSON_parse beh url_ok es
          (s\<lparr>console := console s @ [ConsoleError ''Error parsing WebSocket message:'']\<rparr>)"
    by (simp add: 1 andThen_def console_error_def)
  with run_console[where P = JSON_parse and beh = beh and u = url_ok and es = es and s = s]
  show ?thesis using 1 by (simp add: run_returns)
qed

text \<open>
  The theorem at an open service with a subscriber for \<open>alert\<close>: a frame that does not
  decode invokes nothing and leaves the service connected, and the alert frame after it
  reaches the subscriber.
\<close>

theorem malformed_frame_dropped_witness:
  "example_parse ''{oops'' = None \<and>
   invoked (fst (onmessage example_parse quiet ''{oops'' listening)) = [] \<and>
   isConnected (fst (onmessage example_parse quiet ''{oops'' listening)) \<and>
   invoked (fst (run example_parse quiet True
                   [SocketMessage 0 ''{oops'', SocketMessage 0 alert_frame] listening)) =
     [(7, JObj [(''type'', JStr ''alert'')])]"
proof -
  have p: "example_parse ''{oops'' = None"
    by (simp add: example_parse_def alert_frame_def quoted_def)
  have g: "example_parse alert_frame = Some (JObj [(''type'', JStr ''alert'')])"
    by (simp add: example_parse_def)
  have l: "invoked listening = [] \<and> isConnected listening"
    by (simp add: listening_def connected_def connecting_def quiet_def service_defs)
  have good: "invoked (fst (run example_parse quiet True [SocketMessage 0 alert_frame] listening)) =
          [(7, JObj [(''type'', JStr ''alert'')])]"
    by (simp add: g listening_def connected_def connecting_def quiet_def service_defs)
  from malformed_frame_dropped[where JSON_parse = example_parse and frame = "''{oops''"
      and beh = quiet and s = listening and url_ok = True and r = 0
      and es = "[SocketMessage 0 alert_frame]"] p
  have a: "onmessage example_parse quiet ''{oops'' listening =
             (console_error ''Error parsing WebSocket message:'' listening, ReturnUndefined)"
    and b: "\<exists>c. fst (run example_parse quiet True
                        [SocketMessage 0 ''{oops'', SocketMessage 0 alert_frame] listening) =
                 (fst (run example_parse quiet True [SocketMessage 0 alert_frame] listening))
                   \<lparr>console := c\<rparr>"
    by blast+
  have 1: "invoked (fst (onmessage example_parse quiet ''{oops'' listening)) = []"
    using a l by (simp add: console_error_def)
  have 2: "isConnected (fst (onmessage example_parse quiet ''{oops'' listening))"
    using a l by (simp add: console_error_def isConnected_def split: option.splits)
  from b obtain c where
    "fst (run example_parse quiet True
            [SocketMessage 0 ''{oops'', SocketMessage 0 alert_frame] listening) =
     (fst (run example_parse quiet True [SocketMessage 0 alert_frame] listening))
       \<lparr>console := c\<rparr>" by blast
  then have 3: "invoked (fst (run example_parse quiet True
            [SocketMessage 0 ''{oops'', SocketMessage 0 alert_frame] listening)) =
     invoked (fst (run example_parse quiet True [SocketMessage 0 alert_frame] listening))"
    by simp
  show ?thesis using p 1 2 3 good by simp
qed

subsection \<open>C8: send\<close>

text \<open>
  C8, as amended. \<open>send(d)\<close> hands the serialized payload to the socket exactly when the
  service holds a socket whose state is OPEN. Otherwise it transmits nothing and keeps
  nothing for later: it logs one line and leaves the rest of the state as it is. In both
  cases it returns \<open>undefined\<close> and does not throw.
\<close>

theorem send_only_when_open:
  "(isConnected s \<longrightarrow>
      (\<exists>r. ws s = Some r \<and>
           send JSON_stringify d s =
             (s\<lparr>transmitted := transmitted s @ [(r, JSON_stringify d)]\<rparr>, ReturnUndefined))) \<and>
   (\<not> isConnected s \<longrightarrow>
      send JSON_stringify d s =
        (console_error ''WebSocket is not connected'' s, ReturnUndefined))"
  by (auto simp: send_def isConnected_def split: option.splits)

text \<open>The theorem at a service whose socket is open and at one whose socket is connecting.\<close>

theorem send_only_when_open_witness:
  "isConnected connected \<and> transmitted (fst (send example_stringify (JNum 1) connected)) = [(0, ''1'')] \<and>
   \<not> isConnected connecting \<and> transmitted (fst (send example_stringify (JNum 1) connecting)) = []"
proof -
  have c: "isConnected connected \<and> ws connected = Some 0 \<and> transmitted connected = []"
    by (simp add: connected_def connecting_def quiet_def service_defs)
  have n: "\<not> isConnected connecting \<and> transmitted connecting = []"
    by (simp add: connecting_def service_defs)
  from send_only_when_open[of connected example_stringify "JNum 1"]
    send_only_when_open[of connecting example_stringify "JNum 1"] c n
  show ?thesis by (auto simp: example_stringify_def console_error_def)
qed

text \<open>
  C8 as stated fails on the failure signal: \<open>send\<close> has no \<open>return\<close> statement, so its
  caller gets \<open>undefined\<close> from a send that was dropped as from one that was transmitted.
\<close>

theorem send_returns_undefined_either_way:
  "\<not> isConnected connecting \<and> isConnected connected \<and>
   snd (send example_stringify (JNum 1) connecting) = ReturnUndefined \<and>
   snd (send example_stringify (JNum 1) connected) = ReturnUndefined"
  by (simp add: connected_def connecting_def quiet_def service_defs)

subsection \<open>C9: the alert list\<close>

text \<open>
  C9. After any sequence of messages handled, alerts dismissed and timers fired, the alert
  list has at most 5 entries and is ordered newest first: it is a subsequence of the
  alerts constructed so far, newest first. When the sequence is of alert-class messages
  only, the list is the 5 newest of them (all of them, when fewer).
\<close>

theorem alerts_bounded_newest_first:
  "length (alerts (alert_run evs useState_initial)) \<le> 5 \<and>
   subseq (alerts (alert_run evs useState_initial)) (rev (constructed evs)) \<and>
   ((\<forall>e \<in> set evs. is_alert e) \<longrightarrow>
      alerts (alert_run evs useState_initial) = take 5 (rev (constructed evs)))"
proof -
  have 0: "length (alerts useState_initial) \<le> 5" by (simp add: useState_initial_def)
  have 1: "alerts useState_initial = []" by (simp add: useState_initial_def)
  show ?thesis
    using length_alert_run[OF 0, of evs] subseq_alert_run[of evs useState_initial]
      alerts_only_run[OF _ 0, of evs]
    by (simp add: 1)
qed

text \<open>
  The theorem at seven alerts, made at clock readings 1 to 7: the list holds those of 7, 6,
  5, 4 and 3, in this order, and not the two oldest.
\<close>

theorem alerts_bounded_newest_first_witness:
  "map (\<lambda>a. a ''id'') (alerts (alert_run seven_alerts useState_initial)) =
     [Some (VNum 7), Some (VNum 6), Some (VNum 5), Some (VNum 4), Some (VNum 3)] \<and>
   map (\<lambda>a. a ''symbol'') (alerts (alert_run seven_alerts useState_initial)) =
     [Some (VStr ''NFLX''), Some (VStr ''META''), Some (VStr ''TSLA''), Some (VStr ''AMZN''),
      Some (VStr ''GOOG'')]"
proof -
  have "\<forall>e \<in> set seven_alerts. is_alert e"
    by (simp add: seven_alerts_def alert_class_def alert_message_def)
  with alerts_bounded_newest_first[of seven_alerts]
  have "alerts (alert_run seven_alerts useState_initial) = take 5 (rev (constructed seven_alerts))"
    by blast
  then show ?thesis
    by (simp add: seven_alerts_def alert_class_def alert_message_def newAlert_def)
qed

subsection \<open>C10: the ids of alerts\<close>

text \<open>
  C10 fails on the code: the id of an alert is \<open>Date.now()\<close>, a reading of the clock in
  milliseconds. Two alert messages handled at the same clock reading, 1000, give two
  alerts (for MSFT and AAPL) with the same id 1000; dismissing one of them, or the timer
  of one of them, removes both.
\<close>

theorem alert_ids_collide:
  "map (\<lambda>a. a ''id'') (alerts (alert_run same_millisecond useState_initial)) =
     [Some (VNum 1000), Some (VNum 1000)] \<and>
   map (\<lambda>a. a ''symbol'') (alerts (alert_run same_millisecond useState_initial)) =
     [Some (VStr ''MSFT''), Some (VStr ''AAPL'')] \<and>
   alerts (alert_run (same_millisecond @ [Dismiss (Some (VNum 1000))]) useState_initial) = [] \<and>
   alerts (alert_run (same_millisecond @ [Expire]) useState_initial) = []"
  by (simp add: same_millisecond_def alert_run_def handleAlert_def newAlert_def removeAlert_def
      timer_fires_def alert_message_def useState_initial_def)

subsection \<open>C4: updateStockData\<close>

text \<open>
  C4 fails on the code. The callback that the component subscribes to \<open>stock_update\<close>
  holds the \<open>dashboardData\<close> of the first render, \<open>null\<close>, so the guard of
  \<open>updateStockData\<close> returns before the merge on every update, whatever snapshot the
  cell holds by then: the snapshot stays as it was. With the snapshot that has AAPL at
  price 100 and volume 1000 loaded, the update for AAPL with price 105 leaves the price of
  AAPL at 100, where the claim says 105.
\<close>

theorem stock_update_callback_drops_update:
  "stock_update_callback updatedStock prev = Inr prev \<and>
   stock_update_callback aapl_update (Some aapl_snapshot) = Inr (Some aapl_snapshot) \<and>
   map (\<lambda>stock. (stock ''symbol'', stock ''price'', stock ''volume'')) (stocks aapl_snapshot) =
     [(Some (VStr ''AAPL''), Some (VNum 100), Some (VNum 1000)),
      (Some (VStr ''MSFT''), Some (VNum 300), Some (VNum 2000))] \<and>
   aapl_update ''symbol'' = Some (VStr ''AAPL'') \<and> aapl_update ''price'' = Some (VNum 105)"
  by (simp add: stock_update_callback_def first_render_dashboardData_def updateStockData_def
      aapl_snapshot_def aapl_update_def)

end
